theory Spec2Isabelle
  imports Main "HOL-Library.Word"
begin

section \<open>A fixed-pool first-fit allocator (src/main.cpp)\<close>

text \<open>
  The allocator of \<^verbatim>\<open>src/main.cpp\<close> manages one contiguous pool. Every block of
  the pool starts with a \<^verbatim>\<open>BlockHeader\<close>; free blocks are chained into a doubly
  linked list through the \<^verbatim>\<open>next\<close> and \<^verbatim>\<open>prev\<close> fields of their headers.

  Modelling decisions:
  \<^item> \<^verbatim>\<open>size_t\<close> is a 64-bit word (LP64): \<open>+\<close> and \<open>-\<close> wrap around as in C++.
  \<^item> \<^verbatim>\<open>sizeof(BlockHeader)\<close> is 32 on LP64 (8 bytes of size, 1 byte of flag padded
    to 8, two pointers of 8 bytes).
  \<^item> An address is a natural number, \<open>0\<close> is \<^verbatim>\<open>nullptr\<close>. Pointer arithmetic
    \<^verbatim>\<open>(char*)p + n\<close> is \<open>p + unat n\<close>.
  \<^item> Memory is a store from addresses to headers: the cell at address \<open>a\<close> is what
    the code reads and writes through a \<^verbatim>\<open>BlockHeader*\<close> equal to \<open>a\<close>. Two
    pointers alias exactly when they are equal. (The store is exact as long as the
    headers in use do not overlap partially, which the tiling of the pool gives.)
  \<^item> Every access through a \<^verbatim>\<open>BlockHeader*\<close> is checked: the whole header must lie
    inside the pool \<open>[m_memory_pool, m_memory_pool + m_pool_size)\<close>. An access outside
    is undefined behaviour in C++ and the error \<open>OutOfBounds\<close> in the model.
  \<^item> A loop over the free list is a \<^theory_text>\<open>partial_function\<close> in the option monad:
    \<open>None\<close> means the loop runs forever (a cyclic list).
  \<^item> Output to \<^verbatim>\<open>std::cerr\<close> and \<^verbatim>\<open>std::cout\<close> is not modelled, except that
    \<open>print_free_list\<close> returns the (address, size) pairs it prints.
  \<^item> The bodies of \<^verbatim>\<open>allocate\<close> and \<^verbatim>\<open>deallocate\<close> are cut into named steps
    (\<open>split_block\<close>, \<open>take_block\<close>, \<open>right_neighbour_free\<close>, \<open>coalesce_right\<close> and
    the loops), each with the lines of the source it stands for.
\<close>

subsection \<open>Data\<close>

type_synonym addr = nat
type_synonym size_t = "64 word"

text \<open>\<^verbatim>\<open>struct BlockHeader\<close>, lines 15-20. The fields \<^verbatim>\<open>size\<close> and \<^verbatim>\<open>next\<close> carry
  a suffix, since both names are taken in Isabelle.\<close>

record BlockHeader =
  size_b :: size_t
  is_free :: bool
  next_b :: addr
  prev :: addr

definition header_size :: size_t where
  "header_size = 32"

text \<open>The private members of \<^verbatim>\<open>class Allocator\<close>, lines 65-67, and the memory the
  pool pointer refers to.\<close>

record Allocator =
  m_memory_pool :: addr
  m_pool_size :: size_t
  m_free_list_head :: addr
  heap :: "addr \<Rightarrow> BlockHeader"

datatype error = OutOfBounds

subsection \<open>Checked memory access\<close>

definition in_pool :: "Allocator \<Rightarrow> addr \<Rightarrow> bool" where
  "in_pool s a \<longleftrightarrow>
     m_memory_pool s \<noteq> 0 \<and> m_memory_pool s \<le> a \<and>
     a + unat header_size \<le> m_memory_pool s + unat (m_pool_size s)"

definition load :: "Allocator \<Rightarrow> addr \<Rightarrow> error + BlockHeader" where
  "load s a = (if in_pool s a then Inr (heap s a) else Inl OutOfBounds)"

definition store :: "Allocator \<Rightarrow> addr \<Rightarrow> (BlockHeader \<Rightarrow> BlockHeader) \<Rightarrow> error + Allocator" where
  "store s a f =
     (if in_pool s a then Inr (s\<lparr>heap := (heap s)(a := f (heap s a))\<rparr>) else Inl OutOfBounds)"

definition set_size :: "Allocator \<Rightarrow> addr \<Rightarrow> size_t \<Rightarrow> error + Allocator" where
  "set_size s a v = store s a (\<lambda>b. b\<lparr>size_b := v\<rparr>)"

definition set_is_free :: "Allocator \<Rightarrow> addr \<Rightarrow> bool \<Rightarrow> error + Allocator" where
  "set_is_free s a v = store s a (\<lambda>b. b\<lparr>is_free := v\<rparr>)"

definition set_next :: "Allocator \<Rightarrow> addr \<Rightarrow> addr \<Rightarrow> error + Allocator" where
  "set_next s a v = store s a (\<lambda>b. b\<lparr>next_b := v\<rparr>)"

definition set_prev :: "Allocator \<Rightarrow> addr \<Rightarrow> addr \<Rightarrow> error + Allocator" where
  "set_prev s a v = store s a (\<lambda>b. b\<lparr>prev := v\<rparr>)"

text \<open>Sequencing of fallible steps: the first error ends the run.\<close>

definition and_then :: "error + 'a \<Rightarrow> ('a \<Rightarrow> error + 'b) \<Rightarrow> error + 'b" where
  "and_then m f = (case m of Inl e \<Rightarrow> Inl e | Inr x \<Rightarrow> f x)"

subsection \<open>The constructor, lines 31-48\<close>

text \<open>\<open>base\<close> is the address \<^verbatim>\<open>new char[pool_size]\<close> returns and \<open>mem\<close> the memory
  as it is at that moment; both are chosen by the environment. \<^verbatim>\<open>new\<close> never returns
  \<^verbatim>\<open>nullptr\<close> (it throws instead), so callers pass \<open>base \<noteq> 0\<close>.\<close>

definition construct :: "addr \<Rightarrow> (addr \<Rightarrow> BlockHeader) \<Rightarrow> size_t \<Rightarrow> Allocator" where
  "construct base mem pool_size =
     (if pool_size < header_size then
        \<lparr>m_memory_pool = 0, m_pool_size = pool_size, m_free_list_head = 0, heap = mem\<rparr>
      else
        \<lparr>m_memory_pool = base, m_pool_size = pool_size, m_free_list_head = base,
         heap = mem(base := \<lparr>size_b = pool_size, is_free = True, next_b = 0, prev = 0\<rparr>)\<rparr>)"

subsection \<open>Free-list helpers, lines 78-98\<close>

definition removeFromFreeList :: "Allocator \<Rightarrow> addr \<Rightarrow> error + Allocator" where
  "removeFromFreeList s block =
     and_then (load s block) (\<lambda>b.
     and_then (if prev b \<noteq> 0 then set_next s (prev b) (next_b b)
               else Inr (s\<lparr>m_free_list_head := next_b b\<rparr>)) (\<lambda>s1.
     and_then (load s1 block) (\<lambda>b1.
       if next_b b1 \<noteq> 0 then set_prev s1 (next_b b1) (prev b1) else Inr s1)))"

definition addToFreeList :: "Allocator \<Rightarrow> addr \<Rightarrow> error + Allocator" where
  "addToFreeList s block =
     and_then (set_is_free s block True) (\<lambda>s1.
     and_then (set_next s1 block (m_free_list_head s1)) (\<lambda>s2.
     and_then (set_prev s2 block 0) (\<lambda>s3.
     and_then (if m_free_list_head s3 \<noteq> 0 then set_prev s3 (m_free_list_head s3) block
               else Inr s3) (\<lambda>s4.
       Inr (s4\<lparr>m_free_list_head := block\<rparr>)))))"

subsection \<open>allocate, lines 100-155\<close>

text \<open>The split of lines 119-138: \<open>current\<close> keeps the low \<open>total_size_needed\<close>
  bytes, the rest becomes a free block that takes the place of \<open>current\<close> in the free
  list. One step per statement of the source, each reading the memory as the
  statements before it left it.\<close>

definition split_block :: "Allocator \<Rightarrow> addr \<Rightarrow> size_t \<Rightarrow> error + Allocator" where
  "split_block s current total_size_needed =
     (let new_free_block = current + unat total_size_needed in
      and_then (load s current) (\<lambda>c.
      and_then (set_size s new_free_block (size_b c - total_size_needed)) (\<lambda>s1.
      and_then (set_is_free s1 new_free_block True) (\<lambda>s2.
      and_then (set_size s2 current total_size_needed) (\<lambda>s3.
      and_then (load s3 current) (\<lambda>c3.
      and_then (set_next s3 new_free_block (next_b c3)) (\<lambda>s4.
      and_then (load s4 current) (\<lambda>c4.
      and_then (set_prev s4 new_free_block (prev c4)) (\<lambda>s5.
      and_then (load s5 current) (\<lambda>c5.
      and_then (if prev c5 \<noteq> 0 then set_next s5 (prev c5) new_free_block
                else Inr (s5\<lparr>m_free_list_head := new_free_block\<rparr>)) (\<lambda>s6.
      and_then (load s6 current) (\<lambda>c6.
        if next_b c6 \<noteq> 0 then set_prev s6 (next_b c6) new_free_block else Inr s6))))))))))))"

text \<open>Lines 112-148, run once the search has found \<open>current\<close>: split or unlink, mark
  the block allocated, return the address after the header.\<close>

definition take_block :: "Allocator \<Rightarrow> addr \<Rightarrow> size_t \<Rightarrow> error + Allocator \<times> addr" where
  "take_block s current total_size_needed =
     and_then (load s current) (\<lambda>c.
     and_then (if total_size_needed + header_size < size_b c
               then split_block s current total_size_needed
               else removeFromFreeList s current) (\<lambda>s1.
     and_then (set_is_free s1 current False) (\<lambda>s2.
       Inr (s2, current + unat header_size))))"

text \<open>The loop of lines 111-150 and the return of line 154. The pair is the new state
  and the returned pointer (\<open>0\<close> for \<^verbatim>\<open>nullptr\<close>).\<close>

partial_function (option) allocate_loop ::
  "Allocator \<Rightarrow> size_t \<Rightarrow> addr \<Rightarrow> (error + Allocator \<times> addr) option" where
  "allocate_loop s total_size_needed current =
     (if current = 0 then Some (Inr (s, 0))
      else case load s current of
        Inl e \<Rightarrow> Some (Inl e)
      | Inr c \<Rightarrow>
          if total_size_needed \<le> size_b c then Some (take_block s current total_size_needed)
          else allocate_loop s total_size_needed (next_b c))"

definition allocate :: "Allocator \<Rightarrow> size_t \<Rightarrow> (error + Allocator \<times> addr) option" where
  "allocate s sz =
     (if sz = 0 then Some (Inr (s, 0))
      else allocate_loop s (sz + header_size) (m_free_list_head s))"

subsection \<open>deallocate, lines 157-192\<close>

text \<open>The condition of line 171. The header at \<open>next_physical_block\<close> is read only
  behind the bounds test: \<^verbatim>\<open>&&\<close> evaluates its right operand only when the left one
  holds.\<close>

definition right_neighbour_free :: "Allocator \<Rightarrow> addr \<Rightarrow> error + bool" where
  "right_neighbour_free s next_physical_block =
     (if next_physical_block < m_memory_pool s + unat (m_pool_size s)
      then and_then (load s next_physical_block) (\<lambda>n. Inr (is_free n))
      else Inr False)"

text \<open>Lines 168-174: merge with the block physically to the right.\<close>

definition coalesce_right :: "Allocator \<Rightarrow> addr \<Rightarrow> error + Allocator" where
  "coalesce_right s block_to_free =
     and_then (load s block_to_free) (\<lambda>b.
       let next_physical_block = block_to_free + unat (size_b b) in
       and_then (right_neighbour_free s next_physical_block) (\<lambda>free.
         if free then
           and_then (load s block_to_free) (\<lambda>b1.
           and_then (load s next_physical_block) (\<lambda>n.
           and_then (set_size s block_to_free (size_b b1 + size_b n)) (\<lambda>s1.
             removeFromFreeList s1 next_physical_block)))
         else Inr s))"

text \<open>Lines 179-191: look for a free block that ends where \<open>block_to_free\<close> begins;
  without one, the block goes to the front of the free list.\<close>

partial_function (option) deallocate_loop ::
  "Allocator \<Rightarrow> addr \<Rightarrow> addr \<Rightarrow> (error + Allocator) option" where
  "deallocate_loop s block_to_free current_free =
     (if current_free = 0 then Some (addToFreeList s block_to_free)
      else case load s current_free of
        Inl e \<Rightarrow> Some (Inl e)
      | Inr c \<Rightarrow>
          if current_free + unat (size_b c) = block_to_free then
            Some (and_then (load s block_to_free) (\<lambda>b.
                    set_size s current_free (size_b c + size_b b)))
          else deallocate_loop s block_to_free (next_b c))"

text \<open>For \<open>ptr\<close> below \<open>header_size\<close> the subtraction of line 163 leaves the pool in
  C++ and gives \<open>0\<close> here; both are outside the pool, so the first access fails.\<close>

definition deallocate :: "Allocator \<Rightarrow> addr \<Rightarrow> (error + Allocator) option" where
  "deallocate s ptr =
     (if ptr = 0 then Some (Inr s)
      else
        let block_to_free = ptr - unat header_size in
        case coalesce_right s block_to_free of
          Inl e \<Rightarrow> Some (Inl e)
        | Inr s1 \<Rightarrow> deallocate_loop s1 block_to_free (m_free_list_head s1))"

subsection \<open>print_free_list, lines 194-210\<close>

text \<open>The (address, size) pairs in the order printed.\<close>

partial_function (option) print_loop ::
  "Allocator \<Rightarrow> addr \<Rightarrow> (addr \<times> size_t) list \<Rightarrow> (error + (addr \<times> size_t) list) option" where
  "print_loop s current out =
     (if current = 0 then Some (Inr out)
      else case load s current of
        Inl e \<Rightarrow> Some (Inl e)
      | Inr c \<Rightarrow> print_loop s (next_b c) (out @ [(current, size_b c)]))"

definition print_free_list :: "Allocator \<Rightarrow> (error + (addr \<times> size_t) list) option" where
  "print_free_list s = print_loop s (m_free_list_head s) []"

subsection \<open>The test driver, lines 216-249\<close>

text \<open>Sequencing of calls that may fail or run forever.\<close>

definition bind_res ::
  "(error + 'a) option \<Rightarrow> ('a \<Rightarrow> (error + 'b) option) \<Rightarrow> (error + 'b) option" where
  "bind_res m f =
     (case m of None \<Rightarrow> None | Some (Inl e) \<Rightarrow> Some (Inl e) | Some (Inr x) \<Rightarrow> f x)"

text \<open>Tests 1 and 2 of \<^verbatim>\<open>main\<close>: the five free-list snapshots it prints (the initial
  state, after the three allocations, and after each of the three frees), for a pool
  of 1024 bytes that \<^verbatim>\<open>new\<close> placed at \<open>base\<close>.\<close>

definition main_snapshots ::
  "addr \<Rightarrow> (addr \<Rightarrow> BlockHeader) \<Rightarrow> (error + (addr \<times> size_t) list list) option" where
  "main_snapshots base mem =
     (let allocator = construct base mem 1024 in
      bind_res (print_free_list allocator) (\<lambda>out0.
      bind_res (allocate allocator 100) (\<lambda>(a1, p1).
      bind_res (allocate a1 200) (\<lambda>(a2, p2).
      bind_res (allocate a2 50) (\<lambda>(a3, p3).
      bind_res (print_free_list a3) (\<lambda>out1.
      bind_res (deallocate a3 p2) (\<lambda>a4.
      bind_res (print_free_list a4) (\<lambda>out2.
      bind_res (deallocate a4 p1) (\<lambda>a5.
      bind_res (print_free_list a5) (\<lambda>out3.
      bind_res (deallocate a5 p3) (\<lambda>a6.
      bind_res (print_free_list a6) (\<lambda>out4.
        Some (Inr [out0, out1, out2, out3, out4])))))))))))))"

section \<open>The invariants of the pool\<close>

text \<open>\<open>tiles h a bs e\<close>: the blocks whose headers sit at the addresses \<open>bs\<close>, in this
  order, cover \<open>[a, e)\<close> exactly: each block starts where the one before it ends, the
  last one ends at \<open>e\<close>, and each is at least one header long.\<close>

primrec tiles :: "(addr \<Rightarrow> BlockHeader) \<Rightarrow> addr \<Rightarrow> addr list \<Rightarrow> addr \<Rightarrow> bool" where
  "tiles h a [] e \<longleftrightarrow> a = e"
| "tiles h a (b # bs) e \<longleftrightarrow>
     b = a \<and> unat header_size \<le> unat (size_b (h b)) \<and> tiles h (a + unat (size_b (h b))) bs e"

text \<open>\<open>dll h pv p xs q\<close>: following \<open>next\<close> from \<open>p\<close> visits exactly the headers \<open>xs\<close>
  and then reaches \<open>q\<close>; every \<open>prev\<close> points one step back, the first one to \<open>pv\<close>.
  The free list of a state is \<open>dll h 0 m_free_list_head xs 0\<close>.\<close>

primrec dll :: "(addr \<Rightarrow> BlockHeader) \<Rightarrow> addr \<Rightarrow> addr \<Rightarrow> addr list \<Rightarrow> addr \<Rightarrow> bool" where
  "dll h pv p [] q \<longleftrightarrow> p = q"
| "dll h pv p (a # as) q \<longleftrightarrow>
     p = a \<and> a \<noteq> 0 \<and> prev (h a) = pv \<and> dll h a (next_b (h a)) as q"

text \<open>No two neighbours in the list of blocks are both free.\<close>

fun no_adjacent_free :: "(addr \<Rightarrow> BlockHeader) \<Rightarrow> addr list \<Rightarrow> bool" where
  "no_adjacent_free h (b # c # bs) \<longleftrightarrow>
     \<not> (is_free (h b) \<and> is_free (h c)) \<and> no_adjacent_free h (c # bs)"
| "no_adjacent_free h [b] \<longleftrightarrow> True"
| "no_adjacent_free h [] \<longleftrightarrow> True"

text \<open>A state is valid for the blocks \<open>bs\<close> (in address order) and the free list \<open>fl\<close>
  (in list order) when there is a pool, of at most \<^verbatim>\<open>PTRDIFF_MAX\<close> bytes as every
  array object is, the blocks tile it, the free list is a well-formed doubly linked
  list that holds each free block once and nothing else, and no two adjacent blocks
  are free.\<close>

definition valid_state :: "Allocator \<Rightarrow> addr list \<Rightarrow> addr list \<Rightarrow> bool" where
  "valid_state s bs fl \<longleftrightarrow>
     m_memory_pool s \<noteq> 0 \<and> unat (m_pool_size s) < 2 ^ 63 \<and>
     tiles (heap s) (m_memory_pool s) bs (m_memory_pool s + unat (m_pool_size s)) \<and>
     dll (heap s) 0 (m_free_list_head s) fl 0 \<and> distinct fl \<and>
     set fl = {b \<in> set bs. is_free (heap s b)} \<and>
     no_adjacent_free (heap s) bs"

text \<open>The pointers that a client holds in a state with the blocks \<open>bs\<close>: the payload
  addresses of the allocated blocks.\<close>

definition live :: "Allocator \<Rightarrow> addr list \<Rightarrow> addr set" where
  "live s bs = set (map (\<lambda>b. b + unat header_size) (filter (\<lambda>b. \<not> is_free (heap s b)) bs))"

text \<open>The runs of a client that constructs a pool, requests only sizes \<open>n\<close> for which
  \<open>n + sizeof(BlockHeader)\<close> is representable, and gives back only pointers that it
  holds. \<open>reachable s L\<close>: such a run ends in the state \<open>s\<close>, holding the pointers
  \<open>L\<close>.\<close>

inductive reachable :: "Allocator \<Rightarrow> addr set \<Rightarrow> bool" where
  constructed:
    "base \<noteq> 0 \<Longrightarrow> \<not> pool_size < header_size \<Longrightarrow> unat pool_size < 2 ^ 63 \<Longrightarrow>
     reachable (construct base mem pool_size) {}"
| allocated:
    "reachable s L \<Longrightarrow> unat n + unat header_size < 2 ^ 64 \<Longrightarrow>
     allocate s n = Some (Inr (s', p)) \<Longrightarrow>
     reachable s' (if p = 0 then L else insert p L)"
| deallocated:
    "reachable s L \<Longrightarrow> p \<in> L \<Longrightarrow> deallocate s p = Some (Inr s') \<Longrightarrow>
     reachable s' (L - {p})"

subsection \<open>Example states\<close>

text \<open>Memory filled with zero bytes.\<close>

definition zero_mem :: "addr \<Rightarrow> BlockHeader" where
  "zero_mem = (\<lambda>_. \<lparr>size_b = 0, is_free = False, next_b = 0, prev = 0\<rparr>)"

text \<open>A pool of 1024 bytes at address 4096 after \<open>allocate\<close> of 100, 200, 50 and 546
  bytes and \<open>deallocate\<close> of the first and the third block: the blocks at 4096 and
  4460 are free and the free list holds them in the order 4460, 4096.\<close>

definition example_state :: Allocator where
  "example_state =
     \<lparr>m_memory_pool = 4096, m_pool_size = 1024, m_free_list_head = 4460,
      heap = zero_mem
        (4096 := \<lparr>size_b = 132, is_free = True, next_b = 0, prev = 4460\<rparr>,
         4228 := \<lparr>size_b = 232, is_free = False, next_b = 0, prev = 0\<rparr>,
         4460 := \<lparr>size_b = 82, is_free = True, next_b = 4096, prev = 0\<rparr>,
         4542 := \<lparr>size_b = 578, is_free = False, next_b = 0, prev = 0\<rparr>)\<rparr>"

section \<open>Lemmas\<close>

subsection \<open>Evaluation\<close>

lemma unat_header_size: "unat header_size = 32"
  by (simp add: header_size_def)

lemma and_then_simps [simp]: "and_then (Inr x) f = f x" "and_then (Inl e) f = Inl e"
  by (simp_all add: and_then_def)

lemma and_then_cong [cong]: "m = m' \<Longrightarrow> and_then m f = and_then m' f"
  by simp

lemma bind_res_simps [simp]:
  "bind_res (Some (Inr x)) f = f x" "bind_res (Some (Inl e)) f = Some (Inl e)"
  "bind_res None f = None"
  by (simp_all add: bind_res_def)

lemma bind_res_cong [cong]: "m = m' \<Longrightarrow> bind_res m f = bind_res m' f"
  by simp

lemmas run_defs = allocate_def deallocate_def construct_def header_size_def load_def store_def
  in_pool_def take_block_def split_block_def removeFromFreeList_def addToFreeList_def
  coalesce_right_def right_neighbour_free_def print_free_list_def
  set_size_def set_is_free_def set_next_def set_prev_def
  allocate_loop.simps deallocate_loop.simps print_loop.simps Let_def

subsection \<open>Memory access inside the pool\<close>

lemma in_pool_upd [simp]:
  "in_pool (s\<lparr>heap := h\<rparr>) a = in_pool s a"
  "in_pool (s\<lparr>m_free_list_head := p\<rparr>) a = in_pool s a"
  by (simp_all add: in_pool_def)

lemma load_in: "in_pool s a \<Longrightarrow> load s a = Inr (heap s a)"
  by (simp add: load_def)

lemma store_in: "in_pool s a \<Longrightarrow> store s a f = Inr (s\<lparr>heap := (heap s)(a := f (heap s a))\<rparr>)"
  by (simp add: store_def)

lemmas sets = set_size_def set_is_free_def set_next_def set_prev_def

subsection \<open>Tilings\<close>

lemma tiles_append: "tiles h a (us @ vs) e \<longleftrightarrow> (\<exists>m. tiles h a us m \<and> tiles h m vs e)"
  by (induction us arbitrary: a) auto

lemma tiles_cong: "(\<And>b. b \<in> set bs \<Longrightarrow> size_b (h' b) = size_b (h b)) \<Longrightarrow> tiles h' a bs e = tiles h a bs e"
  by (induction bs arbitrary: a) auto

lemma tiles_bounds: "tiles h a bs e \<Longrightarrow> a \<le> e \<and> (\<forall>b\<in>set bs. a \<le> b \<and> b + unat (size_b (h b)) \<le> e)"
proof (induction bs arbitrary: a)
  case Nil then show ?case by simp
next
  case (Cons b bs)
  from Cons.prems have ba: "b = a" and t: "tiles h (a + unat (size_b (h a))) bs e" by auto
  from Cons.IH[OF t] ba show ?case by fastforce
qed

subsection \<open>Doubly linked lists\<close>

lemma dll_append:
  "dll h pv p (xs @ ys) q \<longleftrightarrow> (\<exists>m. dll h pv p xs m \<and> dll h (last (pv # xs)) m ys q)"
  by (induction xs arbitrary: pv p) auto

lemma dll_cong:
  "(\<And>a. a \<in> set xs \<Longrightarrow> next_b (h' a) = next_b (h a) \<and> prev (h' a) = prev (h a)) \<Longrightarrow>
   dll h' pv p xs q = dll h pv p xs q"
  by (induction xs arbitrary: pv p) auto

subsection \<open>Adjacent free blocks\<close>

lemma naf_cong: "(\<And>b. b \<in> set bs \<Longrightarrow> is_free (h' b) = is_free (h b)) \<Longrightarrow> no_adjacent_free h' bs = no_adjacent_free h bs"
  by (induction h bs rule: no_adjacent_free.induct) auto

lemma naf_mono: "(\<And>b. b \<in> set bs \<Longrightarrow> is_free (h' b) \<Longrightarrow> is_free (h b)) \<Longrightarrow> no_adjacent_free h bs \<Longrightarrow> no_adjacent_free h' bs"
  by (induction h bs rule: no_adjacent_free.induct) auto

lemma naf_split:
  "no_adjacent_free h (us @ b # vs) \<longleftrightarrow>
     no_adjacent_free h us \<and> (us \<noteq> [] \<longrightarrow> \<not> (is_free (h (last us)) \<and> is_free (h b))) \<and>
     (vs \<noteq> [] \<longrightarrow> \<not> (is_free (h b) \<and> is_free (h (hd vs)))) \<and> no_adjacent_free h vs"
proof (induction h us rule: no_adjacent_free.induct)
  case (1 h u c us) then show ?case by auto
next
  case (2 h u) then show ?case by (cases vs) auto
next
  case (3 h) then show ?case by (cases vs) auto
qed


subsection \<open>The helpers of the free list\<close>

lemma remove_ok:
  assumes L: "dll (heap s) 0 (m_free_list_head s) (xs @ a # ys) 0"
      and D: "distinct (xs @ a # ys)"
      and P: "\<forall>x\<in>set (xs @ a # ys). in_pool s x"
  shows "\<exists>s'. removeFromFreeList s a = Inr s' \<and>
           m_memory_pool s' = m_memory_pool s \<and> m_pool_size s' = m_pool_size s \<and>
           (\<forall>x. size_b (heap s' x) = size_b (heap s x) \<and> is_free (heap s' x) = is_free (heap s x)) \<and>
           dll (heap s') 0 (m_free_list_head s') (xs @ ys) 0"
proof -
  let ?h = "heap s"
  from L have a: "a \<noteq> 0" "prev (?h a) = last (0 # xs)" "dll ?h a (next_b (?h a)) ys 0"
    and X: "dll ?h 0 (m_free_list_head s) xs a"
    by (auto simp: dll_append)
  from P have pa: "in_pool s a" by simp
  show ?thesis
  proof (cases xs rule: rev_cases)
    case Nil
    show ?thesis
    proof (cases ys)
      case Nil
      with \<open>xs = []\<close> a pa show ?thesis
        by (simp add: removeFromFreeList_def load_in)
    next
      case (Cons y ys')
      with a D P \<open>xs = []\<close> have y: "y \<noteq> 0" "next_b (?h a) = y" "in_pool s y" "y \<notin> set ys'"
        "dll ?h y (next_b (?h y)) ys' 0"
        by auto
      have "dll ((?h)(y := (?h y)\<lparr>prev := 0\<rparr>)) y (next_b (?h y)) ys' 0"
        using y by (subst dll_cong[where h = ?h]) auto
      with \<open>xs = []\<close> Cons a pa y show ?thesis
        by (simp add: removeFromFreeList_def load_in store_in sets)
    qed
  next
    case (snoc xs' x)
    with X D P have x: "x \<noteq> 0" "next_b (?h x) = a" "prev (?h x) = last (0 # xs')" "in_pool s x"
      "x \<noteq> a" "x \<notin> set xs'" "x \<notin> set ys" "dll ?h 0 (m_free_list_head s) xs' x"
      by (auto simp: dll_append)
    from snoc a have pv: "prev (?h a) = x" by simp
    show ?thesis
    proof (cases ys)
      case Nil
      with a have n: "next_b (?h a) = 0" by simp
      have "dll ((?h)(x := (?h x)\<lparr>next_b := 0\<rparr>)) 0 (m_free_list_head s) xs' x"
        using x by (subst dll_cong[where h = ?h]) auto
      with snoc Nil a pa x pv n show ?thesis
        by (simp add: removeFromFreeList_def load_in store_in sets dll_append)
    next
      case (Cons y ys')
      with a D P snoc have y: "y \<noteq> 0" "next_b (?h a) = y" "in_pool s y" "y \<notin> set ys'" "y \<noteq> x" "y \<noteq> a"
        "y \<notin> set xs'" "x \<notin> set ys'" "dll ?h y (next_b (?h y)) ys' 0"
        by auto
      let ?h2 = "((?h)(x := (?h x)\<lparr>next_b := y\<rparr>))(y := (?h y)\<lparr>prev := x\<rparr>)"
      have 1: "dll ?h2 0 (m_free_list_head s) xs' x"
        using x y by (subst dll_cong[where h = ?h]) auto
      have 2: "dll ?h2 y (next_b (?h y)) ys' 0"
        using x y by (subst dll_cong[where h = ?h]) auto
      from snoc Cons a pa x pv y 1 2 show ?thesis
        by (simp add: removeFromFreeList_def load_in store_in sets dll_append)
    qed
  qed
qed

lemma add_ok:
  assumes L: "dll (heap s) 0 (m_free_list_head s) fl 0"
      and D: "distinct fl"
      and N: "b \<notin> set fl" "b \<noteq> 0"
      and P: "in_pool s b" "\<forall>x\<in>set fl. in_pool s x"
  shows "\<exists>s'. addToFreeList s b = Inr s' \<and>
           m_memory_pool s' = m_memory_pool s \<and> m_pool_size s' = m_pool_size s \<and>
           (\<forall>x. size_b (heap s' x) = size_b (heap s x)) \<and>
           (\<forall>x. is_free (heap s' x) = (x = b \<or> is_free (heap s x))) \<and>
           dll (heap s') 0 (m_free_list_head s') (b # fl) 0"
proof (cases fl)
  case Nil
  with L N P show ?thesis
    by (simp add: addToFreeList_def store_in sets)
next
  case (Cons y ys)
  let ?h = "heap s"
  from Cons L N P D have y: "m_free_list_head s = y" "y \<noteq> 0" "y \<noteq> b" "in_pool s y" "b \<notin> set ys"
    "y \<notin> set ys" "dll ?h y (next_b (?h y)) ys 0"
    by auto
  let ?h2 = "((?h)(b := (?h b)\<lparr>is_free := True, next_b := y, prev := 0\<rparr>))(y := (?h y)\<lparr>prev := b\<rparr>)"
  have "dll ?h2 y (next_b (?h y)) ys 0 = dll ?h y (next_b (?h y)) ys 0"
    using y by (intro dll_cong) auto
  with Cons y N P show ?thesis
    by (simp add: addToFreeList_def store_in sets)
qed


lemma split_ok:
  assumes L: "dll (heap s) 0 (m_free_list_head s) (xs @ a # ys) 0"
      and D: "distinct (xs @ a # ys)"
      and P: "\<forall>x\<in>set (xs @ a # ys). in_pool s x"
      and R: "r = a + unat tsn" "in_pool s r" "r \<notin> set (xs @ a # ys)"
  shows "\<exists>s'. split_block s a tsn = Inr s' \<and>
           m_memory_pool s' = m_memory_pool s \<and> m_pool_size s' = m_pool_size s \<and>
           size_b (heap s' a) = tsn \<and> size_b (heap s' r) = size_b (heap s a) - tsn \<and>
           (\<forall>x. x \<noteq> a \<longrightarrow> x \<noteq> r \<longrightarrow> size_b (heap s' x) = size_b (heap s x)) \<and>
           (\<forall>x. is_free (heap s' x) = (x = r \<or> is_free (heap s x))) \<and>
           next_b (heap s' r) = next_b (heap s a) \<and> prev (heap s' r) = prev (heap s a) \<and>
           dll (heap s') 0 (m_free_list_head s') (xs @ r # ys) 0"
proof -
  let ?h = "heap s"
  from L have a: "a \<noteq> 0" "prev (?h a) = last (0 # xs)" "dll ?h a (next_b (?h a)) ys 0"
    and X: "dll ?h 0 (m_free_list_head s) xs a"
    by (auto simp: dll_append)
  from P have pa: "in_pool s a" by simp
  from R have r: "r \<noteq> a" "r \<notin> set xs" "r \<notin> set ys" "r \<noteq> 0" "in_pool s (a + unat tsn)"
    by (auto simp: in_pool_def)
  show ?thesis
  proof (cases xs rule: rev_cases)
    case Nil
    show ?thesis
    proof (cases ys)
      case Nil
      with \<open>xs = []\<close> a pa r R(1) show ?thesis
        by (simp add: split_block_def Let_def load_in store_in sets)
    next
      case (Cons y ys')
      with a D P \<open>xs = []\<close> have y: "y \<noteq> 0" "next_b (?h a) = y" "in_pool s y" "y \<notin> set ys'"
        "y \<noteq> a" "dll ?h y (next_b (?h y)) ys' 0"
        by auto
      from r Cons have ry: "r \<noteq> y" "r \<notin> set ys'" by auto
      let ?h2 = "((?h)(r := (?h r)\<lparr>size_b := size_b (?h a) - tsn, is_free := True, next_b := y, prev := 0\<rparr>, 
                      a := (?h a)\<lparr>size_b := tsn\<rparr>, y := (?h y)\<lparr>prev := r\<rparr>))"
      have "dll ?h2 y (next_b (?h y)) ys' 0"
        using y r ry by (subst dll_cong[where h = ?h]) auto
      with \<open>xs = []\<close> Cons a pa y r ry R(1) show ?thesis
        by (simp add: split_block_def Let_def load_in store_in sets fun_upd_twist)
    qed
  next
    case (snoc xs' x)
    with X D P have x: "x \<noteq> 0" "next_b (?h x) = a" "prev (?h x) = last (0 # xs')" "in_pool s x"
      "x \<noteq> a" "x \<notin> set xs'" "x \<notin> set ys" "dll ?h 0 (m_free_list_head s) xs' x"
      by (auto simp: dll_append)
    from snoc a have pv: "prev (?h a) = x" by simp
    from r snoc have rx: "r \<noteq> x" "r \<notin> set xs'" by auto
    show ?thesis
    proof (cases ys)
      case Nil
      with a have n: "next_b (?h a) = 0" by simp
      let ?h2 = "((?h)(r := (?h r)\<lparr>size_b := size_b (?h a) - tsn, is_free := True, next_b := 0, prev := x\<rparr>, 
                      a := (?h a)\<lparr>size_b := tsn\<rparr>, x := (?h x)\<lparr>next_b := r\<rparr>))"
      have "dll ?h2 0 (m_free_list_head s) xs' x"
        using x r rx by (subst dll_cong[where h = ?h]) auto
      with snoc Nil a pa x pv n r rx R(1) show ?thesis
        by (simp add: split_block_def Let_def load_in store_in sets dll_append fun_upd_twist)
    next
      case (Cons y ys')
      with a D P snoc have y: "y \<noteq> 0" "next_b (?h a) = y" "in_pool s y" "y \<notin> set ys'" "y \<noteq> x" "y \<noteq> a"
        "y \<notin> set xs'" "x \<notin> set ys'" "dll ?h y (next_b (?h y)) ys' 0"
        by auto
      from r Cons have ry: "r \<noteq> y" "r \<notin> set ys'" by auto
      let ?h2 = "((?h)(r := (?h r)\<lparr>size_b := size_b (?h a) - tsn, is_free := True, next_b := y, prev := x\<rparr>, 
                      a := (?h a)\<lparr>size_b := tsn\<rparr>, x := (?h x)\<lparr>next_b := r\<rparr>, y := (?h y)\<lparr>prev := r\<rparr>))"
      have 1: "dll ?h2 0 (m_free_list_head s) xs' x"
        using x y r rx ry by (subst dll_cong[where h = ?h]) auto
      have 2: "dll ?h2 y (next_b (?h y)) ys' 0"
        using x y r rx ry by (subst dll_cong[where h = ?h]) auto
      from snoc Cons a pa x pv y r rx ry R(1) 1 2 show ?thesis
        by (simp add: split_block_def Let_def load_in store_in sets dll_append fun_upd_twist)
    qed
  qed
qed


subsection \<open>Loops over the free list\<close>

lemma allocate_loop_found:
  assumes "dll (heap s) pv p (xs @ a # ys) q"
      and "\<forall>x\<in>set xs. in_pool s x \<and> \<not> tsn \<le> size_b (heap s x)"
      and "in_pool s a" "tsn \<le> size_b (heap s a)"
  shows "allocate_loop s tsn p = Some (take_block s a tsn)"
  using assms
proof (induction xs arbitrary: pv p)
  case Nil
  then show ?case by (subst allocate_loop.simps) (simp add: load_in)
next
  case (Cons x xs)
  from Cons.prems have "allocate_loop s tsn (next_b (heap s x)) = Some (take_block s a tsn)"
    by (intro Cons.IH[where pv = x]) auto
  with Cons.prems show ?case by (subst allocate_loop.simps) (simp add: load_in)
qed

lemma allocate_loop_none:
  assumes "dll (heap s) pv p xs 0"
      and "\<forall>x\<in>set xs. in_pool s x \<and> \<not> tsn \<le> size_b (heap s x)"
  shows "allocate_loop s tsn p = Some (Inr (s, 0))"
  using assms
proof (induction xs arbitrary: pv p)
  case Nil
  then show ?case by (subst allocate_loop.simps) simp
next
  case (Cons x xs)
  from Cons.prems have "allocate_loop s tsn (next_b (heap s x)) = Some (Inr (s, 0))"
    by (intro Cons.IH[where pv = x]) auto
  with Cons.prems show ?case by (subst allocate_loop.simps) (simp add: load_in)
qed

lemma deallocate_loop_found:
  assumes "dll (heap s) pv p (xs @ c # ys) q"
      and "\<forall>x\<in>set xs. in_pool s x \<and> x + unat (size_b (heap s x)) \<noteq> b"
      and "in_pool s c" "c + unat (size_b (heap s c)) = b"
  shows "deallocate_loop s b p =
           Some (and_then (load s b) (\<lambda>b'. set_size s c (size_b (heap s c) + size_b b')))"
  using assms
proof (induction xs arbitrary: pv p)
  case Nil
  then have "p = c" by simp
  with Nil show ?case unfolding \<open>p = c\<close> by (subst deallocate_loop.simps) (simp add: load_in)
next
  case (Cons x xs)
  from Cons.prems have "deallocate_loop s b (next_b (heap s x)) =
      Some (and_then (load s b) (\<lambda>b'. set_size s c (size_b (heap s c) + size_b b')))"
    by (intro Cons.IH[where pv = x]) auto
  with Cons.prems show ?case by (subst deallocate_loop.simps) (simp add: load_in)
qed

lemma deallocate_loop_none:
  assumes "dll (heap s) pv p xs 0"
      and "\<forall>x\<in>set xs. in_pool s x \<and> x + unat (size_b (heap s x)) \<noteq> b"
  shows "deallocate_loop s b p = Some (addToFreeList s b)"
  using assms
proof (induction xs arbitrary: pv p)
  case Nil
  then show ?case by (subst deallocate_loop.simps) simp
next
  case (Cons x xs)
  from Cons.prems have "deallocate_loop s b (next_b (heap s x)) = Some (addToFreeList s b)"
    by (intro Cons.IH[where pv = x]) auto
  with Cons.prems show ?case by (subst deallocate_loop.simps) (simp add: load_in)
qed

lemma print_loop_list:
  assumes "dll (heap s) pv p xs 0" and "\<forall>x\<in>set xs. in_pool s x"
  shows "print_loop s p out = Some (Inr (out @ map (\<lambda>a. (a, size_b (heap s a))) xs))"
  using assms
proof (induction xs arbitrary: pv p out)
  case Nil
  then show ?case by (subst print_loop.simps) simp
next
  case (Cons x xs)
  from Cons.prems have "print_loop s (next_b (heap s x)) (out @ [(x, size_b (heap s x))]) =
      Some (Inr ((out @ [(x, size_b (heap s x))]) @ map (\<lambda>a. (a, size_b (heap s a))) xs))"
    by (intro Cons.IH[where pv = x]) auto
  with Cons.prems show ?case by (subst print_loop.simps) (simp add: load_in)
qed

subsection \<open>Geometry of the tiling\<close>

lemma tiles_size: "tiles h a bs e \<Longrightarrow> b \<in> set bs \<Longrightarrow> unat header_size \<le> unat (size_b (h b))"
  by (induction bs arbitrary: a) auto

lemma tiles_lt: "tiles h a bs e \<Longrightarrow> b \<in> set bs \<Longrightarrow> b < e"
  using tiles_bounds[of h a bs e] tiles_size[of h a bs e b]
  by (fastforce simp: unat_header_size)

lemma tiles_distinct: "tiles h a bs e \<Longrightarrow> distinct bs"
proof (induction bs arbitrary: a)
  case Nil then show ?case by simp
next
  case (Cons b bs)
  from Cons.prems have t: "tiles h (a + unat (size_b (h a))) bs e" and ba: "b = a"
    and sz: "unat header_size \<le> unat (size_b (h a))" by auto
  from tiles_bounds[OF t] sz have "a \<notin> set bs" by (fastforce simp: unat_header_size)
  with Cons.IH[OF t] ba show ?case by simp
qed

text \<open>The blocks of a tiled pool are determined by the memory: walking from the start
  of the pool, each size leads to the next block.\<close>

lemma tiles_unique: "tiles h a bs e \<Longrightarrow> tiles h a bs' e \<Longrightarrow> bs = bs'"
proof (induction bs arbitrary: a bs')
  case Nil
  show ?case
  proof (cases bs')
    case Nil then show ?thesis by simp
  next
    case (Cons b cs)
    with Nil.prems have "tiles h (a + unat (size_b (h a))) cs a"
      and "unat header_size \<le> unat (size_b (h a))" by auto
    with tiles_bounds[of h "a + unat (size_b (h a))" cs a] show ?thesis
      by (simp add: unat_header_size)
  qed
next
  case (Cons b bs)
  from Cons.prems(1) have ba: "b = a" and t: "tiles h (a + unat (size_b (h a))) bs e"
    and sz: "unat header_size \<le> unat (size_b (h a))" by auto
  show ?case
  proof (cases bs')
    case Nil
    with Cons.prems(2) have "a = e" by simp
    with tiles_bounds[OF t] sz show ?thesis by (simp add: unat_header_size)
  next
    case (Cons c cs)
    with Cons.prems(2) have "c = a" and "tiles h (a + unat (size_b (h a))) cs e" by auto
    with Cons.IH[OF t] ba Cons show ?thesis by simp
  qed
qed

lemma valid_in_pool: "valid_state s bs fl \<Longrightarrow> b \<in> set bs \<Longrightarrow> in_pool s b"
  unfolding valid_state_def in_pool_def
  using tiles_bounds[of "heap s" "m_memory_pool s" bs "m_memory_pool s + unat (m_pool_size s)"]
        tiles_size[of "heap s" "m_memory_pool s" bs "m_memory_pool s + unat (m_pool_size s)" b]
  by fastforce

lemma valid_fl_in_pool: "valid_state s bs fl \<Longrightarrow> x \<in> set fl \<Longrightarrow> in_pool s x"
  using valid_in_pool[of s bs fl x] by (auto simp: valid_state_def)

lemma tiles_size_le: "tiles h a bs e \<Longrightarrow> b \<in> set bs \<Longrightarrow> unat (size_b (h b)) \<le> e - a"
  using tiles_bounds[of h a bs e] by fastforce


lemma unat_plus_no_wrap:
  "unat x + unat y < 2 ^ 64 \<Longrightarrow> unat (x + y) = unat x + unat y" for x y :: size_t
  using unat_add_lem[of x y] by simp

lemma unat_minus_le:
  "y \<le> x \<Longrightarrow> unat (x - y) = unat x - unat y" for x y :: size_t
  by (simp add: unat_sub)

lemma tiles_pred:
  assumes T: "tiles h a (us @ b # vs) e" and X: "x \<in> set (us @ b # vs)"
      and E: "x + unat (size_b (h x)) = b"
  shows "us \<noteq> [] \<and> x = last us"
proof -
  from T have U: "tiles h a us b" and B: "unat header_size \<le> unat (size_b (h b))"
    and W: "tiles h (b + unat (size_b (h b))) vs e"
    by (auto simp: tiles_append)
  from tiles_distinct[OF T] have D: "distinct (us @ b # vs)" .
  from X consider "x \<in> set us" | "x = b" | "x \<in> set vs" by auto
  then show ?thesis
  proof cases
    case 1
    then obtain u1 u2 where us: "us = u1 @ x # u2" by (auto dest: split_list)
    show ?thesis
    proof (cases u2)
      case Nil with us show ?thesis by simp
    next
      case (Cons y u3)
      with U us E have "y = b" by (auto simp: tiles_append)
      with D us Cons show ?thesis by auto
    qed
  next
    case 2
    with E B show ?thesis by (simp add: unat_header_size)
  next
    case 3
    with tiles_bounds[OF W] B E show ?thesis by (fastforce simp: unat_header_size)
  qed
qed

lemma coalesce_right_none:
  assumes V: "valid_state s (us @ b # vs) fl"
      and N: "vs = [] \<or> \<not> is_free (heap s (hd vs))"
  shows "coalesce_right s b = Inr s"
proof -
  let ?e = "m_memory_pool s + unat (m_pool_size s)"
  from V have T: "tiles (heap s) (m_memory_pool s) (us @ b # vs) ?e"
    by (simp add: valid_state_def)
  then have W: "tiles (heap s) (b + unat (size_b (heap s b))) vs ?e"
    by (auto simp: tiles_append)
  from valid_in_pool[OF V] have pb: "in_pool s b" by simp
  show ?thesis
  proof (cases vs)
    case Nil
    with W pb show ?thesis
      by (simp add: coalesce_right_def right_neighbour_free_def load_in Let_def)
  next
    case (Cons n vs')
    with W have n: "n = b + unat (size_b (heap s b))" by simp
    from valid_in_pool[OF V, of n] Cons have "in_pool s n" by simp
    with Cons N n pb show ?thesis
      by (simp add: coalesce_right_def right_neighbour_free_def load_in Let_def)
  qed
qed

subsection \<open>deallocate: the merge to the right\<close>

lemma naf_tl: "no_adjacent_free h (x # xs) \<Longrightarrow> no_adjacent_free h xs"
  by (cases xs) auto

lemma coalesce_right_merge:
  assumes V: "valid_state s (us @ b # n # vs) fl"
      and B: "\<not> is_free (heap s b)" and F: "is_free (heap s n)"
  shows "\<exists>s1. coalesce_right s b = Inr s1 \<and> valid_state s1 (us @ b # vs) (remove1 n fl) \<and>
           m_memory_pool s1 = m_memory_pool s \<and> m_pool_size s1 = m_pool_size s \<and>
           \<not> is_free (heap s1 b) \<and> (vs \<noteq> [] \<longrightarrow> \<not> is_free (heap s1 (hd vs))) \<and>
           unat (size_b (heap s1 b)) = unat (size_b (heap s b)) + unat (size_b (heap s n)) \<and>
           (\<forall>x. x \<noteq> b \<longrightarrow> size_b (heap s1 x) = size_b (heap s x)) \<and>
           (\<forall>x. is_free (heap s1 x) = is_free (heap s x))"
proof -
  let ?h = "heap s"
  let ?a = "m_memory_pool s"
  let ?e = "m_memory_pool s + unat (m_pool_size s)"
  from V have T: "tiles ?h ?a (us @ b # n # vs) ?e"
    and L: "dll ?h 0 (m_free_list_head s) fl 0" and D: "distinct fl"
    and S: "set fl = {x \<in> set (us @ b # n # vs). is_free (?h x)}"
    and NAF: "no_adjacent_free ?h (us @ b # n # vs)"
    and A0: "?a \<noteq> 0" and PS: "unat (m_pool_size s) < 2 ^ 63"
    by (simp_all add: valid_state_def)
  from T have U: "tiles ?h ?a us b" and szb: "unat header_size \<le> unat (size_b (?h b))"
    and nn: "b + unat (size_b (?h b)) = n" and szn: "unat header_size \<le> unat (size_b (?h n))"
    and W: "tiles ?h (n + unat (size_b (?h n))) vs ?e"
    by (auto simp: tiles_append)
  from tiles_distinct[OF T] have DB: "distinct (us @ b # n # vs)" .
  from tiles_bounds[OF T] have bnd: "?a \<le> b" "n + unat (size_b (?h n)) \<le> ?e" by auto
  with nn have "unat (size_b (?h b)) + unat (size_b (?h n)) \<le> unat (m_pool_size s)" by linarith
  moreover have "(2::nat) ^ 63 < 2 ^ 64" by simp
  ultimately have "unat (size_b (?h b)) + unat (size_b (?h n)) < 2 ^ 64"
    using PS by linarith
  then have sum: "unat (size_b (?h b) + size_b (?h n)) = unat (size_b (?h b)) + unat (size_b (?h n))"
    by (rule unat_plus_no_wrap)
  from valid_in_pool[OF V] have pb: "in_pool s b" and pn: "in_pool s n" by simp_all
  from tiles_lt[OF T, of n] have ne: "n < ?e" by simp
  from S F B have nfl: "n \<in> set fl" and bfl: "b \<notin> set fl" by auto
  then obtain xs ys where fl: "fl = xs @ n # ys" by (auto dest: split_list)
  let ?s' = "s\<lparr>heap := ?h(b := (?h b)\<lparr>size_b := size_b (?h b) + size_b (?h n)\<rparr>)\<rparr>"
  have run: "coalesce_right s b = removeFromFreeList ?s' n"
    using pb pn ne F nn
    by (simp add: coalesce_right_def right_neighbour_free_def load_in store_in sets Let_def)
  have L': "dll (heap ?s') 0 (m_free_list_head ?s') (xs @ n # ys) 0"
    using L fl by (subst dll_cong[where h = ?h]) auto
  have P': "\<forall>x\<in>set (xs @ n # ys). in_pool ?s' x"
    using valid_fl_in_pool[OF V] fl by simp
  from remove_ok[OF L' _ P'] D fl obtain s1 where s1: "removeFromFreeList ?s' n = Inr s1"
    "m_memory_pool s1 = ?a" "m_pool_size s1 = m_pool_size s"
    "\<And>x. size_b (heap s1 x) = size_b (heap ?s' x)"
    "\<And>x. is_free (heap s1 x) = is_free (?h x)"
    "dll (heap s1) 0 (m_free_list_head s1) (xs @ ys) 0"
    by auto
  have T1: "tiles (heap s1) ?a (us @ b # vs) ?e"
  proof -
    have "tiles (heap ?s') ?a us b"
      using U DB by (subst tiles_cong[where h = ?h]) auto
    moreover have "tiles (heap ?s') (n + unat (size_b (?h n))) vs ?e"
      using W DB by (subst tiles_cong[where h = ?h]) auto
    moreover have "b + unat (size_b (heap ?s' b)) = n + unat (size_b (?h n))"
      using nn sum by simp
    moreover have "unat header_size \<le> unat (size_b (heap ?s' b))"
      using szb sum by simp
    ultimately have "tiles (heap ?s') ?a (us @ b # vs) ?e"
      unfolding tiles_append by (intro exI[of _ b]) simp
    then show ?thesis using s1(4) by (subst tiles_cong[where h = "heap ?s'"]) auto
  qed
  have N1: "no_adjacent_free (heap s1) (us @ b # vs)"
  proof -
    from NAF have "no_adjacent_free ?h us" "no_adjacent_free ?h (n # vs)"
      by (simp_all add: naf_split[of ?h us b "n # vs"])
    moreover from this(2) have "no_adjacent_free ?h vs" by (rule naf_tl)
    ultimately have "no_adjacent_free ?h (us @ b # vs)"
      using B by (simp add: naf_split[of ?h us b vs])
    then show ?thesis using s1(5) by (subst naf_cong[where h = ?h]) auto
  qed
  have R1: "vs \<noteq> [] \<longrightarrow> \<not> is_free (heap s1 (hd vs))"
  proof
    assume "vs \<noteq> []"
    then obtain v vs' where "vs = v # vs'" by (cases vs) auto
    with NAF F have "\<not> is_free (?h v)"
      by (simp add: naf_split[where vs = "n # v # vs'"])
    with \<open>vs = v # vs'\<close> s1(5) show "\<not> is_free (heap s1 (hd vs))" by simp
  qed
  from S have Sx: "\<And>x. (x \<in> set fl) = (x \<in> set (us @ b # n # vs) \<and> is_free (?h x))"
    by blast
  have S1: "set (xs @ ys) = {x \<in> set (us @ b # vs). is_free (heap s1 x)}"
  proof (rule set_eqI)
    fix x
    show "x \<in> set (xs @ ys) \<longleftrightarrow> x \<in> {x \<in> set (us @ b # vs). is_free (heap s1 x)}"
      using Sx[of x] fl D DB s1(5)[of x] F B by auto
  qed
  have V1: "valid_state s1 (us @ b # vs) (xs @ ys)"
    unfolding valid_state_def
    using A0 PS s1(2,3,6) T1 N1 S1 D fl by simp
  have sz1: "unat (size_b (heap s1 b)) = unat (size_b (?h b)) + unat (size_b (?h n))"
    using s1(4)[of b] sum by simp
  have rm: "remove1 n fl = xs @ ys"
    using fl D by (simp add: remove1_append)
  have fr: "\<forall>x. x \<noteq> b \<longrightarrow> size_b (heap s1 x) = size_b (?h x)"
    using s1(4) by simp
  from run s1(1,2,3) V1 B s1(5) R1 sz1 fr show ?thesis
    unfolding rm by (intro exI[of _ s1]) simp
qed

subsection \<open>deallocate: the merge to the left, or the insertion\<close>

lemma valid_free_iff:
  "valid_state s bs fl \<Longrightarrow> (x \<in> set fl) = (x \<in> set bs \<and> is_free (heap s x))"
  by (auto simp: valid_state_def)

lemma in_pool_nonzero: "in_pool s a \<Longrightarrow> a \<noteq> 0"
  by (auto simp: in_pool_def)

lemma left_merge:
  assumes V: "valid_state s (us @ c # b # vs) fl"
      and C: "is_free (heap s c)" and B: "\<not> is_free (heap s b)"
      and R: "vs \<noteq> [] \<longrightarrow> \<not> is_free (heap s (hd vs))"
  shows "\<exists>s2. deallocate_loop s b (m_free_list_head s) = Some (Inr s2) \<and>
           valid_state s2 (us @ c # vs) fl \<and>
           m_memory_pool s2 = m_memory_pool s \<and> m_pool_size s2 = m_pool_size s \<and>
           m_free_list_head s2 = m_free_list_head s \<and>
           unat (size_b (heap s2 c)) = unat (size_b (heap s c)) + unat (size_b (heap s b)) \<and>
           (\<forall>x. is_free (heap s2 x) = is_free (heap s x))"
proof -
  let ?h = "heap s"
  let ?a = "m_memory_pool s"
  let ?e = "m_memory_pool s + unat (m_pool_size s)"
  from V have T: "tiles ?h ?a (us @ c # b # vs) ?e"
    and L: "dll ?h 0 (m_free_list_head s) fl 0" and D: "distinct fl"
    and NAF: "no_adjacent_free ?h (us @ c # b # vs)"
    and A0: "?a \<noteq> 0" and PS: "unat (m_pool_size s) < 2 ^ 63"
    by (simp_all add: valid_state_def)
  from T have U: "tiles ?h ?a us c" and szc: "unat header_size \<le> unat (size_b (?h c))"
    and cb: "c + unat (size_b (?h c)) = b" and szb: "unat header_size \<le> unat (size_b (?h b))"
    and W: "tiles ?h (b + unat (size_b (?h b))) vs ?e"
    by (auto simp: tiles_append)
  from tiles_distinct[OF T] have DB: "distinct (us @ c # b # vs)" .
  from tiles_bounds[OF T] have bnd: "?a \<le> c" "b + unat (size_b (?h b)) \<le> ?e" by auto
  with cb have "unat (size_b (?h c)) + unat (size_b (?h b)) \<le> unat (m_pool_size s)" by linarith
  moreover have "(2::nat) ^ 63 < 2 ^ 64" by simp
  ultimately have "unat (size_b (?h c)) + unat (size_b (?h b)) < 2 ^ 64"
    using PS by linarith
  then have sum: "unat (size_b (?h c) + size_b (?h b)) = unat (size_b (?h c)) + unat (size_b (?h b))"
    by (rule unat_plus_no_wrap)
  from valid_in_pool[OF V] have pb: "in_pool s b" and pc: "in_pool s c" by simp_all
  from valid_free_iff[OF V, of c] C obtain xs ys where fl: "fl = xs @ c # ys"
    by (auto dest: split_list)
  have skip: "\<forall>x\<in>set xs. in_pool s x \<and> x + unat (size_b (?h x)) \<noteq> b"
  proof
    fix x assume x: "x \<in> set xs"
    with fl have xfl: "x \<in> set fl" by simp
    with valid_free_iff[OF V, of x] have xbs: "x \<in> set ((us @ [c]) @ b # vs)" by simp
    have "x + unat (size_b (?h x)) \<noteq> b"
    proof
      assume "x + unat (size_b (?h x)) = b"
      with tiles_pred[of ?h ?a "us @ [c]" b vs ?e x] T xbs have "x = c" by simp
      with x fl D show False by simp
    qed
    with valid_fl_in_pool[OF V xfl] show "in_pool s x \<and> x + unat (size_b (?h x)) \<noteq> b" by simp
  qed
  let ?s2 = "s\<lparr>heap := ?h(c := (?h c)\<lparr>size_b := size_b (?h c) + size_b (?h b)\<rparr>)\<rparr>"
  from L fl have L2: "dll ?h 0 (m_free_list_head s) (xs @ c # ys) 0" by simp
  have run: "deallocate_loop s b (m_free_list_head s) = Some (Inr ?s2)"
    using deallocate_loop_found[OF L2 skip pc cb] pb pc
    by (simp add: load_in store_in sets)
  have T2: "tiles (heap ?s2) ?a (us @ c # vs) ?e"
  proof -
    have "tiles (heap ?s2) ?a us c"
      using U DB by (subst tiles_cong[where h = ?h]) auto
    moreover have "tiles (heap ?s2) (b + unat (size_b (?h b))) vs ?e"
      using W DB by (subst tiles_cong[where h = ?h]) auto
    moreover have "c + unat (size_b (heap ?s2 c)) = b + unat (size_b (?h b))"
      using cb sum by simp
    moreover have "unat header_size \<le> unat (size_b (heap ?s2 c))"
      using szc sum by simp
    ultimately show ?thesis
      unfolding tiles_append by (intro exI[of _ c]) simp
  qed
  have L3: "dll (heap ?s2) 0 (m_free_list_head ?s2) fl 0"
    using L by (subst dll_cong[where h = ?h]) auto
  have N2: "no_adjacent_free (heap ?s2) (us @ c # vs)"
  proof -
    from NAF have n1: "no_adjacent_free ?h us" "us \<noteq> [] \<longrightarrow> \<not> (is_free (?h (last us)) \<and> is_free (?h c))"
      "no_adjacent_free ?h (b # vs)"
      by (simp_all add: naf_split[of ?h us c "b # vs"])
    from n1(3) have "no_adjacent_free ?h vs" by (rule naf_tl)
    with n1 R have "no_adjacent_free ?h (us @ c # vs)"
      by (simp add: naf_split[of ?h us c vs])
    then show ?thesis by (subst naf_cong[where h = ?h]) auto
  qed
  have S2: "set fl = {x \<in> set (us @ c # vs). is_free (heap ?s2 x)}"
  proof (rule set_eqI)
    fix x
    show "x \<in> set fl \<longleftrightarrow> x \<in> {x \<in> set (us @ c # vs). is_free (heap ?s2 x)}"
      using valid_free_iff[OF V, of x] B by auto
  qed
  have V2: "valid_state ?s2 (us @ c # vs) fl"
    unfolding valid_state_def using A0 PS T2 L3 D S2 N2 by simp
  from run V2 sum show ?thesis
    by (intro exI[of _ ?s2]) simp
qed

lemma left_none:
  assumes V: "valid_state s (us @ b # vs) fl" and B: "\<not> is_free (heap s b)"
      and Lf: "us \<noteq> [] \<longrightarrow> \<not> is_free (heap s (last us))"
      and R: "vs \<noteq> [] \<longrightarrow> \<not> is_free (heap s (hd vs))"
  shows "\<exists>s2. deallocate_loop s b (m_free_list_head s) = Some (Inr s2) \<and>
           valid_state s2 (us @ b # vs) (b # fl) \<and>
           m_memory_pool s2 = m_memory_pool s \<and> m_pool_size s2 = m_pool_size s \<and>
           m_free_list_head s2 = b \<and>
           (\<forall>x. size_b (heap s2 x) = size_b (heap s x)) \<and>
           (\<forall>x. is_free (heap s2 x) = (x = b \<or> is_free (heap s x)))"
proof -
  let ?h = "heap s"
  let ?a = "m_memory_pool s"
  let ?e = "m_memory_pool s + unat (m_pool_size s)"
  from V have T: "tiles ?h ?a (us @ b # vs) ?e"
    and L: "dll ?h 0 (m_free_list_head s) fl 0" and D: "distinct fl"
    and NAF: "no_adjacent_free ?h (us @ b # vs)"
    and A0: "?a \<noteq> 0" and PS: "unat (m_pool_size s) < 2 ^ 63"
    by (simp_all add: valid_state_def)
  from tiles_distinct[OF T] have DB: "distinct (us @ b # vs)" .
  from valid_in_pool[OF V] have pb: "in_pool s b" by simp
  from valid_free_iff[OF V, of b] B have bfl: "b \<notin> set fl" by simp
  have skip: "\<forall>x\<in>set fl. in_pool s x \<and> x + unat (size_b (?h x)) \<noteq> b"
  proof
    fix x assume xfl: "x \<in> set fl"
    with valid_free_iff[OF V, of x] have xbs: "x \<in> set (us @ b # vs)" and xf: "is_free (?h x)"
      by simp_all
    have "x + unat (size_b (?h x)) \<noteq> b"
    proof
      assume "x + unat (size_b (?h x)) = b"
      from tiles_pred[OF T xbs this] Lf xf show False by simp
    qed
    with valid_fl_in_pool[OF V xfl] show "in_pool s x \<and> x + unat (size_b (?h x)) \<noteq> b" by simp
  qed
  from add_ok[OF L D bfl in_pool_nonzero[OF pb] pb] valid_fl_in_pool[OF V]
  obtain s2 where s2: "addToFreeList s b = Inr s2"
    "m_memory_pool s2 = ?a" "m_pool_size s2 = m_pool_size s"
    "\<And>x. size_b (heap s2 x) = size_b (?h x)"
    "\<And>x. is_free (heap s2 x) = (x = b \<or> is_free (?h x))"
    "dll (heap s2) 0 (m_free_list_head s2) (b # fl) 0"
    by auto
  have run: "deallocate_loop s b (m_free_list_head s) = Some (Inr s2)"
    using deallocate_loop_none[OF L skip] s2(1) by simp
  have T2: "tiles (heap s2) ?a (us @ b # vs) ?e"
    using T s2(4) by (subst tiles_cong[where h = ?h]) auto
  have N2: "no_adjacent_free (heap s2) (us @ b # vs)"
  proof -
    from NAF have n1: "no_adjacent_free ?h us" "no_adjacent_free ?h vs"
      by (simp_all add: naf_split[of ?h us b vs])
    have "no_adjacent_free (heap s2) us"
      using n1(1) s2(5) DB by (subst naf_cong[where h = ?h]) auto
    moreover have "no_adjacent_free (heap s2) vs"
      using n1(2) s2(5) DB by (subst naf_cong[where h = ?h]) auto
    moreover have "us \<noteq> [] \<longrightarrow> \<not> is_free (heap s2 (last us))"
      using Lf s2(5)[of "last us"] DB by (cases us rule: rev_cases) auto
    moreover have "vs \<noteq> [] \<longrightarrow> \<not> is_free (heap s2 (hd vs))"
      using R s2(5)[of "hd vs"] DB by (cases vs) auto
    ultimately show ?thesis by (simp add: naf_split[of "heap s2" us b vs])
  qed
  have S2: "set (b # fl) = {x \<in> set (us @ b # vs). is_free (heap s2 x)}"
  proof (rule set_eqI)
    fix x
    show "x \<in> set (b # fl) \<longleftrightarrow> x \<in> {x \<in> set (us @ b # vs). is_free (heap s2 x)}"
      using valid_free_iff[OF V, of x] s2(5)[of x] by auto
  qed
  have V2: "valid_state s2 (us @ b # vs) (b # fl)"
    unfolding valid_state_def using A0 PS T2 s2(2,3,6) D bfl S2 N2 by simp
  from s2(6) have "m_free_list_head s2 = b" by simp
  with run V2 s2(2,3,4,5) show ?thesis
    by (intro exI[of _ s2]) simp
qed

subsection \<open>deallocate as a whole\<close>

lemma deallocate_ok:
  assumes V: "valid_state s bs fl" and B: "b \<in> set bs" "\<not> is_free (heap s b)"
  shows "\<exists>s' bs' fl'. deallocate s (b + unat header_size) = Some (Inr s') \<and>
           valid_state s' bs' fl' \<and>
           m_memory_pool s' = m_memory_pool s \<and> m_pool_size s' = m_pool_size s \<and>
           live s' bs' = live s bs - {b + unat header_size}"
proof -
  from B(1) obtain us vs where bs: "bs = us @ b # vs" by (auto dest: split_list)
  have "\<exists>s1 vs1 fl1. coalesce_right s b = Inr s1 \<and> valid_state s1 (us @ b # vs1) fl1 \<and>
          m_memory_pool s1 = m_memory_pool s \<and> m_pool_size s1 = m_pool_size s \<and>
          \<not> is_free (heap s1 b) \<and> (vs1 \<noteq> [] \<longrightarrow> \<not> is_free (heap s1 (hd vs1))) \<and>
          live s1 (us @ b # vs1) = live s bs"
  proof (cases "vs = [] \<or> \<not> is_free (heap s (hd vs))")
    case True
    from coalesce_right_none[OF V[unfolded bs] True] V bs B(2) True show ?thesis
      by (intro exI[of _ s] exI[of _ vs] exI[of _ fl]) auto
  next
    case False
    then obtain n vs' where vs: "vs = n # vs'" and F: "is_free (heap s n)"
      by (cases vs) auto
    from coalesce_right_merge[OF V[unfolded bs vs] B(2) F] obtain s1 where s1:
      "coalesce_right s b = Inr s1" "valid_state s1 (us @ b # vs') (remove1 n fl)"
      "m_memory_pool s1 = m_memory_pool s" "m_pool_size s1 = m_pool_size s"
      "\<not> is_free (heap s1 b)" "vs' \<noteq> [] \<longrightarrow> \<not> is_free (heap s1 (hd vs'))"
      "\<And>x. is_free (heap s1 x) = is_free (heap s x)"
      by blast
    from s1(7) F have "live s1 (us @ b # vs') = live s bs"
      by (simp add: live_def bs vs)
    with s1 show ?thesis
      by (intro exI[of _ s1] exI[of _ vs'] exI[of _ "remove1 n fl"]) simp
  qed
  then obtain s1 vs1 fl1 where s1: "coalesce_right s b = Inr s1"
    and V1: "valid_state s1 (us @ b # vs1) fl1"
    and P1: "m_memory_pool s1 = m_memory_pool s" "m_pool_size s1 = m_pool_size s"
    and B1: "\<not> is_free (heap s1 b)" and R1: "vs1 \<noteq> [] \<longrightarrow> \<not> is_free (heap s1 (hd vs1))"
    and L1: "live s1 (us @ b # vs1) = live s bs"
    by blast
  from V1 have D1: "distinct (us @ b # vs1)"
    unfolding valid_state_def by (blast dest: tiles_distinct)
  have "\<exists>s2 bs2 fl2. deallocate_loop s1 b (m_free_list_head s1) = Some (Inr s2) \<and>
          valid_state s2 bs2 fl2 \<and>
          m_memory_pool s2 = m_memory_pool s1 \<and> m_pool_size s2 = m_pool_size s1 \<and>
          live s2 bs2 = live s1 (us @ b # vs1) - {b + unat header_size}"
  proof (cases "us = [] \<or> \<not> is_free (heap s1 (last us))")
    case True
    then have "us \<noteq> [] \<longrightarrow> \<not> is_free (heap s1 (last us))" by blast
    from left_none[OF V1 B1 this R1] obtain s2 where s2:
      "deallocate_loop s1 b (m_free_list_head s1) = Some (Inr s2)"
      "valid_state s2 (us @ b # vs1) (b # fl1)"
      "m_memory_pool s2 = m_memory_pool s1" "m_pool_size s2 = m_pool_size s1"
      "\<And>x. is_free (heap s2 x) = (x = b \<or> is_free (heap s1 x))"
      by blast
    from s2(5) D1 have "live s2 (us @ b # vs1) = live s1 (us @ b # vs1) - {b + unat header_size}"
      by (auto simp: live_def)
    with s2 show ?thesis
      by (intro exI[of _ s2] exI[of _ "us @ b # vs1"] exI[of _ "b # fl1"]) simp
  next
    case False
    then obtain us' c where us: "us = us' @ [c]" and C: "is_free (heap s1 c)"
      by (cases us rule: rev_cases) auto
    from V1 us have "valid_state s1 (us' @ c # b # vs1) fl1" by simp
    from left_merge[OF this C B1 R1] obtain s2 where s2:
      "deallocate_loop s1 b (m_free_list_head s1) = Some (Inr s2)"
      "valid_state s2 (us' @ c # vs1) fl1"
      "m_memory_pool s2 = m_memory_pool s1" "m_pool_size s2 = m_pool_size s1"
      "\<And>x. is_free (heap s2 x) = is_free (heap s1 x)"
      by blast
    from s2(5) D1 have "live s2 (us' @ c # vs1) = live s1 (us @ b # vs1) - {b + unat header_size}"
      by (auto simp: live_def us)
    with s2 show ?thesis
      by (intro exI[of _ s2] exI[of _ "us' @ c # vs1"] exI[of _ fl1]) simp
  qed
  then obtain s2 bs2 fl2 where s2: "deallocate_loop s1 b (m_free_list_head s1) = Some (Inr s2)"
    "valid_state s2 bs2 fl2" "m_memory_pool s2 = m_memory_pool s1" "m_pool_size s2 = m_pool_size s1"
    "live s2 bs2 = live s1 (us @ b # vs1) - {b + unat header_size}"
    by blast
  have "deallocate s (b + unat header_size) = Some (Inr s2)"
    using s1 s2(1) by (simp add: deallocate_def unat_header_size)
  with s2 P1 L1 show ?thesis by auto
qed

lemma right_neighbour_in_bounds:
  assumes A: "m_memory_pool s \<noteq> 0"
      and T: "tiles (heap s) (m_memory_pool s) bs (m_memory_pool s + unat (m_pool_size s))"
      and B: "b \<in> set bs"
  shows "(\<exists>r. right_neighbour_free s (b + unat (size_b (heap s b))) = Inr r) \<and>
         (b = last bs \<longrightarrow> right_neighbour_free s (b + unat (size_b (heap s b))) = Inr False) \<and>
         (b + unat (size_b (heap s b)) < m_memory_pool s + unat (m_pool_size s) \<longrightarrow>
            in_pool s (b + unat (size_b (heap s b))))"
proof -
  let ?h = "heap s"
  let ?e = "m_memory_pool s + unat (m_pool_size s)"
  from B obtain us vs where bs: "bs = us @ b # vs" by (auto dest: split_list)
  with T have W: "tiles ?h (b + unat (size_b (?h b))) vs ?e" by (auto simp: tiles_append)
  from tiles_distinct[OF T] bs have D: "distinct (us @ b # vs)" by simp
  show ?thesis
  proof (cases vs)
    case Nil
    with W have "right_neighbour_free s (b + unat (size_b (?h b))) = Inr False"
      and "\<not> b + unat (size_b (?h b)) < ?e"
      by (simp_all add: right_neighbour_free_def)
    then show ?thesis by auto
  next
    case (Cons n vs')
    with W have n: "b + unat (size_b (?h b)) = n" by simp
    from Cons bs have nbs: "n \<in> set bs" by simp
    from tiles_bounds[OF T] tiles_size[OF T nbs] nbs A have pn: "in_pool s n"
      by (auto simp: in_pool_def)
    moreover from D Cons bs have "b \<noteq> last bs" by auto
    moreover from tiles_lt[OF T nbs] have "n < ?e" .
    ultimately have "right_neighbour_free s (b + unat (size_b (?h b))) = Inr (is_free (?h n))"
      using n by (simp add: right_neighbour_free_def load_in)
    with \<open>b \<noteq> last bs\<close> pn n show ?thesis by auto
  qed
qed

subsection \<open>allocate: taking the block that was found\<close>

lemma valid_size_bound:
  assumes V: "valid_state s bs fl" and B: "b \<in> set bs"
  shows "unat (size_b (heap s b)) < 2 ^ 63"
proof -
  from V have T: "tiles (heap s) (m_memory_pool s) bs (m_memory_pool s + unat (m_pool_size s))"
    and PS: "unat (m_pool_size s) < 2 ^ 63"
    by (simp_all add: valid_state_def)
  from tiles_size_le[OF T B] PS show ?thesis by simp
qed

lemma split_test:
  fixes t sz :: size_t
  assumes "unat t \<le> unat sz" "unat sz < 2 ^ 63"
  shows "(t + header_size < sz) = (unat t + 32 < unat sz)"
proof -
  have "(2::nat) ^ 63 + 32 < 2 ^ 64" by simp
  with assms have "unat t + unat header_size < 2 ^ 64" by (simp add: unat_header_size)
  then have "unat (t + header_size) = unat t + 32"
    by (simp add: unat_plus_no_wrap unat_header_size)
  then show ?thesis by (simp add: word_less_nat_alt)
qed

lemma take_block_whole:
  assumes V: "valid_state s (us @ a # vs) (xs @ a # ys)"
      and G: "unat tsn \<le> unat (size_b (heap s a))"
      and F: "\<not> unat tsn + 32 < unat (size_b (heap s a))"
  shows "\<exists>s'. take_block s a tsn = Inr (s', a + unat header_size) \<and>
           valid_state s' (us @ a # vs) (xs @ ys) \<and>
           m_memory_pool s' = m_memory_pool s \<and> m_pool_size s' = m_pool_size s \<and>
           (\<forall>x. size_b (heap s' x) = size_b (heap s x)) \<and> \<not> is_free (heap s' a) \<and>
           (\<forall>x. is_free (heap s' x) = (x \<noteq> a \<and> is_free (heap s x)))"
proof -
  let ?h = "heap s"
  let ?a = "m_memory_pool s"
  let ?e = "m_memory_pool s + unat (m_pool_size s)"
  from V have T: "tiles ?h ?a (us @ a # vs) ?e"
    and L: "dll ?h 0 (m_free_list_head s) (xs @ a # ys) 0" and D: "distinct (xs @ a # ys)"
    and NAF: "no_adjacent_free ?h (us @ a # vs)"
    and A0: "?a \<noteq> 0" and PS: "unat (m_pool_size s) < 2 ^ 63"
    by (simp_all add: valid_state_def)
  from valid_in_pool[OF V] have pa: "in_pool s a" by simp
  from valid_fl_in_pool[OF V] have P: "\<forall>x\<in>set (xs @ a # ys). in_pool s x" by blast
  from valid_size_bound[OF V, of a] have "unat (size_b (?h a)) < 2 ^ 63" by simp
  from split_test[OF G this] F have nosplit: "\<not> tsn + header_size < size_b (?h a)" by simp
  from remove_ok[OF L D P] obtain s1 where s1: "removeFromFreeList s a = Inr s1"
    "m_memory_pool s1 = ?a" "m_pool_size s1 = m_pool_size s"
    "\<And>x. size_b (heap s1 x) = size_b (?h x)"
    "\<And>x. is_free (heap s1 x) = is_free (?h x)"
    "dll (heap s1) 0 (m_free_list_head s1) (xs @ ys) 0"
    by auto
  from pa s1(2,3) have pa1: "in_pool s1 a" by (simp add: in_pool_def)
  let ?s2 = "s1\<lparr>heap := (heap s1)(a := (heap s1 a)\<lparr>is_free := False\<rparr>)\<rparr>"
  have run: "take_block s a tsn = Inr (?s2, a + unat header_size)"
    using pa pa1 nosplit s1(1) by (simp add: take_block_def load_in store_in sets)
  have T2: "tiles (heap ?s2) ?a (us @ a # vs) ?e"
    using T s1(4) by (subst tiles_cong[where h = ?h]) auto
  have L2: "dll (heap ?s2) 0 (m_free_list_head ?s2) (xs @ ys) 0"
    using s1(6) by (subst dll_cong[where h = "heap s1"]) auto
  have N2: "no_adjacent_free (heap ?s2) (us @ a # vs)"
    using NAF s1(5) by - (rule naf_mono[where h = ?h], auto split: if_splits)
  have S2: "set (xs @ ys) = {x \<in> set (us @ a # vs). is_free (heap ?s2 x)}"
  proof (rule set_eqI)
    fix x
    show "x \<in> set (xs @ ys) \<longleftrightarrow> x \<in> {x \<in> set (us @ a # vs). is_free (heap ?s2 x)}"
      using valid_free_iff[OF V, of x] s1(5)[of x] D by auto
  qed
  have V2: "valid_state ?s2 (us @ a # vs) (xs @ ys)"
    unfolding valid_state_def using A0 PS T2 L2 D S2 N2 s1(2,3) by simp
  from run V2 s1(2,3,4,5) show ?thesis
    by (intro exI[of _ ?s2]) simp
qed

lemma tiles_inside:
  assumes T: "tiles h a0 (us @ a # vs) e" and R: "a < r" "r < a + unat (size_b (h a))"
  shows "r \<notin> set (us @ a # vs)"
proof -
  from T have U: "tiles h a0 us a" and W: "tiles h (a + unat (size_b (h a))) vs e"
    by (auto simp: tiles_append)
  from tiles_bounds[OF U] R have "r \<notin> set us" by fastforce
  moreover from tiles_bounds[OF W] R have "r \<notin> set vs" by fastforce
  ultimately show ?thesis using R by simp
qed

lemma take_block_split:
  assumes V: "valid_state s (us @ a # vs) (xs @ a # ys)"
      and G: "unat header_size \<le> unat tsn"
      and F: "unat tsn + 32 < unat (size_b (heap s a))"
  shows "\<exists>s'. take_block s a tsn = Inr (s', a + unat header_size) \<and>
           valid_state s' (us @ a # (a + unat tsn) # vs) (xs @ (a + unat tsn) # ys) \<and>
           m_memory_pool s' = m_memory_pool s \<and> m_pool_size s' = m_pool_size s \<and>
           size_b (heap s' a) = tsn \<and> \<not> is_free (heap s' a) \<and>
           size_b (heap s' (a + unat tsn)) = size_b (heap s a) - tsn \<and>
           next_b (heap s' (a + unat tsn)) = next_b (heap s a) \<and>
           prev (heap s' (a + unat tsn)) = prev (heap s a) \<and>
           (\<forall>x. x \<noteq> a \<longrightarrow> x \<noteq> a + unat tsn \<longrightarrow> size_b (heap s' x) = size_b (heap s x)) \<and>
           (\<forall>x. is_free (heap s' x) = (x \<noteq> a \<and> (x = a + unat tsn \<or> is_free (heap s x))))"
proof -
  let ?h = "heap s"
  let ?a = "m_memory_pool s"
  let ?e = "m_memory_pool s + unat (m_pool_size s)"
  define r where "r = a + unat tsn"
  from V have T: "tiles ?h ?a (us @ a # vs) ?e"
    and L: "dll ?h 0 (m_free_list_head s) (xs @ a # ys) 0" and D: "distinct (xs @ a # ys)"
    and NAF: "no_adjacent_free ?h (us @ a # vs)"
    and A0: "?a \<noteq> 0" and PS: "unat (m_pool_size s) < 2 ^ 63"
    by (simp_all add: valid_state_def)
  from T have U: "tiles ?h ?a us a" and W: "tiles ?h (a + unat (size_b (?h a))) vs ?e"
    by (auto simp: tiles_append)
  from tiles_distinct[OF T] have DB: "distinct (us @ a # vs)" .
  from valid_in_pool[OF V] have pa: "in_pool s a" by simp
  from valid_fl_in_pool[OF V] have P: "\<forall>x\<in>set (xs @ a # ys). in_pool s x" by blast
  from valid_free_iff[OF V, of a] have fa: "is_free (?h a)" by simp
  from F have le: "unat tsn \<le> unat (size_b (?h a))" by simp
  from valid_size_bound[OF V, of a] have "unat (size_b (?h a)) < 2 ^ 63" by simp
  from split_test[OF le this] F have dosplit: "tsn + header_size < size_b (?h a)" by simp
  from le have "tsn \<le> size_b (?h a)" by (simp add: word_le_nat_alt)
  then have rest: "unat (size_b (?h a) - tsn) = unat (size_b (?h a)) - unat tsn"
    by (rule unat_minus_le)
  from G have ar: "a < r" by (simp add: unat_header_size r_def)
  from F have ra: "r < a + unat (size_b (?h a))" by (simp add: r_def)
  from tiles_inside[OF T ar ra] have rbs: "r \<notin> set (us @ a # vs)" .
  with valid_free_iff[OF V, of r] have rfl: "r \<notin> set (xs @ a # ys)" by blast
  from tiles_bounds[OF T] have "?a \<le> a" "a + unat (size_b (?h a)) \<le> ?e" by auto
  with F A0 have pr: "in_pool s r" by (simp add: in_pool_def unat_header_size r_def)
  from split_ok[OF L D P r_def pr rfl] obtain s1 where s1: "split_block s a tsn = Inr s1"
    "m_memory_pool s1 = ?a" "m_pool_size s1 = m_pool_size s"
    "size_b (heap s1 a) = tsn" "size_b (heap s1 r) = size_b (?h a) - tsn"
    "\<And>x. x \<noteq> a \<Longrightarrow> x \<noteq> r \<Longrightarrow> size_b (heap s1 x) = size_b (?h x)"
    "\<And>x. is_free (heap s1 x) = (x = r \<or> is_free (?h x))"
    "next_b (heap s1 r) = next_b (?h a)" "prev (heap s1 r) = prev (?h a)"
    "dll (heap s1) 0 (m_free_list_head s1) (xs @ r # ys) 0"
    by auto
  from pa s1(2,3) have pa1: "in_pool s1 a" by (simp add: in_pool_def)
  define h2 where "h2 = (heap s1)(a := (heap s1 a)\<lparr>is_free := False\<rparr>)"
  define s2 where "s2 = s1\<lparr>heap := h2\<rparr>"
  have run: "take_block s a tsn = Inr (s2, a + unat header_size)"
    using pa pa1 dosplit s1(1) by (simp add: take_block_def load_in store_in sets s2_def h2_def)
  have sz2: "size_b (h2 a) = tsn" "size_b (h2 r) = size_b (?h a) - tsn"
    "\<And>x. x \<noteq> a \<Longrightarrow> x \<noteq> r \<Longrightarrow> size_b (h2 x) = size_b (?h x)"
    using s1(4,5,6) ar by (simp_all add: h2_def)
  have fr2: "\<And>x. is_free (h2 x) = (x \<noteq> a \<and> (x = r \<or> is_free (?h x)))"
    using s1(7) by (simp add: h2_def)
  have lk2: "next_b (h2 r) = next_b (?h a)" "prev (h2 r) = prev (?h a)"
    using s1(8,9) ar by (simp_all add: h2_def)
  have T2: "tiles h2 ?a (us @ a # r # vs) ?e"
  proof -
    have szo: "size_b (h2 x) = size_b (?h x)" if "x \<in> set us \<union> set vs" for x
    proof -
      from that DB rbs have "x \<noteq> a" "x \<noteq> r" by auto
      then show ?thesis by (rule sz2(3))
    qed
    have 1: "tiles h2 ?a us a"
      using U by (subst tiles_cong[where h = ?h]) (auto simp: szo)
    have 2: "tiles h2 (a + unat (size_b (?h a))) vs ?e"
      using W by (subst tiles_cong[where h = ?h]) (auto simp: szo)
    have 3: "r + unat (size_b (h2 r)) = a + unat (size_b (?h a))"
      using sz2(2) rest le by (simp add: r_def)
    have 4: "unat header_size \<le> unat (size_b (h2 r))"
      using sz2(2) rest F by (simp add: unat_header_size)
    have 5: "unat header_size \<le> unat (size_b (h2 a))"
      using sz2(1) G by simp
    have 6: "a + unat (size_b (h2 a)) = r"
      using sz2(1) by (simp add: r_def)
    have "tiles h2 a (a # r # vs) ?e"
      using 2 3 4 5 6 by simp
    with 1 show ?thesis
      unfolding tiles_append by blast
  qed
  have L2: "dll h2 0 (m_free_list_head s1) (xs @ r # ys) 0"
    using s1(10) by (subst dll_cong[where h = "heap s1"]) (auto simp: h2_def)
  have D2: "distinct (xs @ r # ys)"
    using D rfl by simp
  have S2: "set (xs @ r # ys) = {x \<in> set (us @ a # r # vs). is_free (h2 x)}"
  proof (rule set_eqI)
    fix x
    show "x \<in> set (xs @ r # ys) \<longleftrightarrow> x \<in> {x \<in> set (us @ a # r # vs). is_free (h2 x)}"
      using valid_free_iff[OF V, of x] fr2[of x] D ar by auto
  qed
  have N2: "no_adjacent_free h2 (us @ a # r # vs)"
  proof -
    from NAF have n1: "no_adjacent_free ?h us" "no_adjacent_free ?h vs"
      "vs \<noteq> [] \<longrightarrow> \<not> is_free (?h (hd vs))"
      using fa by (simp_all add: naf_split[of ?h us a vs])
    have a: "no_adjacent_free h2 us"
      using n1(1) fr2 DB rbs by (subst naf_cong[where h = ?h]) auto
    have b: "no_adjacent_free h2 vs"
      using n1(2) fr2 DB rbs by (subst naf_cong[where h = ?h]) auto
    have c: "vs \<noteq> [] \<longrightarrow> \<not> is_free (h2 (hd vs))"
      using n1(3) fr2[of "hd vs"] rbs by (cases vs) auto
    have d: "\<not> is_free (h2 a)" using fr2[of a] by simp
    from b c have "no_adjacent_free h2 (r # vs)"
      by (cases vs) auto
    with a d show ?thesis
      by (simp add: naf_split[of h2 us a "r # vs"])
  qed
  have V2: "valid_state s2 (us @ a # r # vs) (xs @ r # ys)"
    unfolding valid_state_def using A0 PS T2 L2 D2 S2 N2 s1(2,3) by (simp add: s2_def)
  have "\<not> is_free (h2 a)" using fr2[of a] by simp
  with run V2 s1(2,3) sz2 lk2 fr2 show ?thesis
    unfolding r_def[symmetric] by (intro exI[of _ s2]) (simp add: s2_def)
qed

subsection \<open>allocate as a whole, and the example state\<close>

lemma example_valid: "valid_state example_state [4096, 4228, 4460, 4542] [4460, 4096]"
  by (auto simp: valid_state_def example_state_def zero_mem_def unat_header_size)

lemma example_reached:
  "bind_res (allocate (construct 4096 zero_mem 1024) 100) (\<lambda>(a1, p1).
   bind_res (allocate a1 200) (\<lambda>(a2, p2).
   bind_res (allocate a2 50) (\<lambda>(a3, p3).
   bind_res (allocate a3 546) (\<lambda>(a4, p4).
   bind_res (deallocate a4 p1) (\<lambda>a5.
   deallocate a5 p3))))) = Some (Inr example_state)"
  by (simp add: run_defs example_state_def zero_mem_def fun_eq_iff)

lemma allocate_out_of_memory:
  assumes V: "valid_state s bs fl" and Z: "n \<noteq> 0"
      and N: "\<forall>x\<in>set fl. \<not> n + header_size \<le> size_b (heap s x)"
  shows "allocate s n = Some (Inr (s, 0))"
proof -
  from V have L: "dll (heap s) 0 (m_free_list_head s) fl 0" by (simp add: valid_state_def)
  from N valid_fl_in_pool[OF V]
  have "\<forall>x\<in>set fl. in_pool s x \<and> \<not> n + header_size \<le> size_b (heap s x)" by blast
  from allocate_loop_none[OF L this] Z show ?thesis by (simp add: allocate_def)
qed

lemma allocate_fit:
  assumes V: "valid_state s bs (xs @ a # ys)"
      and N: "\<forall>x\<in>set xs. unat (size_b (heap s x)) < unat n + unat header_size"
      and A: "unat n + unat header_size \<le> unat (size_b (heap s a))"
      and Z: "n \<noteq> 0"
  shows "\<exists>s' bs' fl'. allocate s n = Some (Inr (s', a + unat header_size)) \<and>
     valid_state s' bs' fl' \<and>
     m_memory_pool s' = m_memory_pool s \<and> m_pool_size s' = m_pool_size s \<and>
     \<not> is_free (heap s' a) \<and> live s' bs' = insert (a + unat header_size) (live s bs) \<and>
     (if unat header_size < unat (size_b (heap s a)) - (unat n + unat header_size)
      then fl' = xs @ (a + (unat n + unat header_size)) # ys \<and>
           unat (size_b (heap s' a)) = unat n + unat header_size \<and>
           unat (size_b (heap s' (a + (unat n + unat header_size)))) =
             unat (size_b (heap s a)) - (unat n + unat header_size) \<and>
           next_b (heap s' (a + (unat n + unat header_size))) = next_b (heap s a) \<and>
           prev (heap s' (a + (unat n + unat header_size))) = prev (heap s a)
      else fl' = xs @ ys \<and> bs' = bs \<and> size_b (heap s' a) = size_b (heap s a))"
proof -
  let ?h = "heap s"
  define tsn where "tsn = n + header_size"
  from V have L: "dll ?h 0 (m_free_list_head s) (xs @ a # ys) 0" by (simp add: valid_state_def)
  from valid_free_iff[OF V, of a] obtain us vs where bs: "bs = us @ a # vs"
    by (auto dest: split_list)
  from unsigned_less[of "size_b (?h a)", where 'a = nat] A
  have "unat n + unat header_size < 2 ^ 64" by simp
  then have tsn: "unat tsn = unat n + 32"
    unfolding tsn_def by (simp add: unat_plus_no_wrap unat_header_size)
  from N valid_fl_in_pool[OF V] tsn
  have skip: "\<forall>x\<in>set xs. in_pool s x \<and> \<not> tsn \<le> size_b (?h x)"
    by (auto simp: word_le_nat_alt unat_header_size)
  from valid_fl_in_pool[OF V, of a] have pa: "in_pool s a" by simp
  from A tsn have fit: "tsn \<le> size_b (?h a)" by (simp add: word_le_nat_alt unat_header_size)
  from allocate_loop_found[OF L skip pa fit] Z
  have run: "allocate s n = Some (take_block s a tsn)" by (simp add: allocate_def tsn_def)
  from V bs have V': "valid_state s (us @ a # vs) (xs @ a # ys)" by simp
  show ?thesis
  proof (cases "unat tsn + 32 < unat (size_b (?h a))")
    case True
    from tsn have G: "unat header_size \<le> unat tsn" by (simp add: unat_header_size)
    from take_block_split[OF V' G True] obtain s' where s':
      "take_block s a tsn = Inr (s', a + unat header_size)"
      "valid_state s' (us @ a # (a + unat tsn) # vs) (xs @ (a + unat tsn) # ys)"
      "m_memory_pool s' = m_memory_pool s" "m_pool_size s' = m_pool_size s"
      "size_b (heap s' a) = tsn" "\<not> is_free (heap s' a)"
      "size_b (heap s' (a + unat tsn)) = size_b (?h a) - tsn"
      "next_b (heap s' (a + unat tsn)) = next_b (?h a)"
      "prev (heap s' (a + unat tsn)) = prev (?h a)"
      "\<And>x. is_free (heap s' x) = (x \<noteq> a \<and> (x = a + unat tsn \<or> is_free (heap s x)))"
      by blast
    from s'(2) have "distinct (us @ a # (a + unat tsn) # vs)"
      unfolding valid_state_def by (blast dest: tiles_distinct)
    with s'(10) have "live s' (us @ a # (a + unat tsn) # vs) = insert (a + unat header_size) (live s bs)"
      by (auto simp: live_def bs)
    moreover from fit have "unat (size_b (?h a) - tsn) = unat (size_b (?h a)) - unat tsn"
      by (rule unat_minus_le)
    ultimately show ?thesis using run s'(1-9) tsn True
      by (intro exI[of _ s'] exI[of _ "us @ a # (a + unat tsn) # vs"]
                exI[of _ "xs @ (a + unat tsn) # ys"])
         (simp add: unat_header_size)
  next
    case False
    from A tsn have G: "unat tsn \<le> unat (size_b (?h a))" by (simp add: unat_header_size)
    from take_block_whole[OF V' G False] obtain s' where s':
      "take_block s a tsn = Inr (s', a + unat header_size)"
      "valid_state s' (us @ a # vs) (xs @ ys)"
      "m_memory_pool s' = m_memory_pool s" "m_pool_size s' = m_pool_size s"
      "\<And>x. size_b (heap s' x) = size_b (?h x)" "\<not> is_free (heap s' a)"
      "\<And>x. is_free (heap s' x) = (x \<noteq> a \<and> is_free (heap s x))"
      by blast
    from s'(7) have "live s' (us @ a # vs) = insert (a + unat header_size) (live s bs)"
      by (auto simp: live_def bs)
    with s'(1-6) run tsn False bs show ?thesis
      by (intro exI[of _ s'] exI[of _ "us @ a # vs"] exI[of _ "xs @ ys"])
         (simp add: unat_header_size)
  qed
qed

lemma allocate_preserves_valid:
  assumes V: "valid_state s bs fl" and R: "unat n + unat header_size < 2 ^ 64"
  shows "\<exists>s' p bs' fl'. allocate s n = Some (Inr (s', p)) \<and> valid_state s' bs' fl' \<and>
           m_memory_pool s' = m_memory_pool s \<and> m_pool_size s' = m_pool_size s \<and>
           live s' bs' = (if p = 0 then live s bs else insert p (live s bs))"
proof (cases "n = 0")
  case True
  with V show ?thesis by (auto simp: allocate_def)
next
  case False
  from R have tsn: "unat (n + header_size) = unat n + unat header_size"
    by (rule unat_plus_no_wrap)
  show ?thesis
  proof (cases "\<exists>x\<in>set fl. n + header_size \<le> size_b (heap s x)")
    case True
    from split_list_first_prop[OF True] obtain xs a ys where fl: "fl = xs @ a # ys"
      and a: "n + header_size \<le> size_b (heap s a)"
      and xs: "\<forall>x\<in>set xs. \<not> n + header_size \<le> size_b (heap s x)"
      by blast
    from a tsn have A: "unat n + unat header_size \<le> unat (size_b (heap s a))"
      by (simp add: word_le_nat_alt)
    from xs tsn have N: "\<forall>x\<in>set xs. unat (size_b (heap s x)) < unat n + unat header_size"
      by (auto simp: word_le_nat_alt)
    from allocate_fit[OF V[unfolded fl] N A False] obtain s' bs' fl' where
      "allocate s n = Some (Inr (s', a + unat header_size))" "valid_state s' bs' fl'"
      "m_memory_pool s' = m_memory_pool s" "m_pool_size s' = m_pool_size s"
      "live s' bs' = insert (a + unat header_size) (live s bs)"
      by blast
    then show ?thesis
      by (intro exI[of _ s'] exI[of _ "a + unat header_size"] exI[of _ bs'] exI[of _ fl'])
         (simp add: unat_header_size)
  next
    case False
    with allocate_out_of_memory[OF V \<open>n \<noteq> 0\<close>] V show ?thesis by auto
  qed
qed

lemma no_tiling_from_empty_block:
  "size_b (h a) = 0 \<Longrightarrow> a \<noteq> e \<Longrightarrow> \<not> tiles h a bs e"
  by (cases bs) (auto simp: unat_header_size)

subsection \<open>Construction, snapshots and the round trip\<close>

lemma construct_valid:
  assumes "base \<noteq> 0" "\<not> pool_size < header_size" "unat pool_size < 2 ^ 63"
  shows "valid_state (construct base mem pool_size) [base] [base]"
  using assms
  by (auto simp: valid_state_def construct_def word_less_nat_alt unat_header_size)

lemma print_free_list_valid:
  assumes V: "valid_state s bs fl"
  shows "print_free_list s = Some (Inr (map (\<lambda>a. (a, size_b (heap s a))) fl))"
proof -
  from V have L: "dll (heap s) 0 (m_free_list_head s) fl 0" by (simp add: valid_state_def)
  from valid_fl_in_pool[OF V] have "\<forall>x\<in>set fl. in_pool s x" by blast
  from print_loop_list[OF L this, of "[]"] show ?thesis by (simp add: print_free_list_def)
qed

lemma round_trip:
  assumes V: "valid_state s bs (xs @ a # ys)"
      and N: "\<forall>x\<in>set xs. unat (size_b (heap s x)) < unat n + unat header_size"
      and A: "unat n + unat header_size \<le> unat (size_b (heap s a))"
      and Z: "n \<noteq> 0"
  shows "\<exists>s1 s2. allocate s n = Some (Inr (s1, a + unat header_size)) \<and>
           deallocate s1 (a + unat header_size) = Some (Inr s2) \<and>
           valid_state s2 bs (a # xs @ ys) \<and>
           (\<forall>x\<in>set bs. size_b (heap s2 x) = size_b (heap s x))"
proof -
  let ?h = "heap s"
  define tsn where "tsn = n + header_size"
  from V have L: "dll ?h 0 (m_free_list_head s) (xs @ a # ys) 0" and D: "distinct (xs @ a # ys)"
    by (simp_all add: valid_state_def)
  from valid_free_iff[OF V, of a] have fa: "is_free (?h a)" by simp
  from valid_free_iff[OF V, of a] obtain us vs where bs: "bs = us @ a # vs"
    by (auto dest: split_list)
  from V bs have V': "valid_state s (us @ a # vs) (xs @ a # ys)" by simp
  from V' have NAF: "no_adjacent_free ?h (us @ a # vs)"
    and T: "tiles ?h (m_memory_pool s) (us @ a # vs) (m_memory_pool s + unat (m_pool_size s))"
    by (simp_all add: valid_state_def)
  from tiles_distinct[OF T] have DB: "distinct (us @ a # vs)" .
  from NAF fa have nb: "us \<noteq> [] \<longrightarrow> \<not> is_free (?h (last us))" "vs \<noteq> [] \<longrightarrow> \<not> is_free (?h (hd vs))"
    by (simp_all add: naf_split[of ?h us a vs])
  from unsigned_less[of "size_b (?h a)", where 'a = nat] A
  have "unat n + unat header_size < 2 ^ 64" by simp
  then have tsn: "unat tsn = unat n + 32"
    unfolding tsn_def by (simp add: unat_plus_no_wrap unat_header_size)
  from N valid_fl_in_pool[OF V] tsn
  have skip: "\<forall>x\<in>set xs. in_pool s x \<and> \<not> tsn \<le> size_b (?h x)"
    by (auto simp: word_le_nat_alt unat_header_size)
  from valid_fl_in_pool[OF V, of a] have pa: "in_pool s a" by simp
  from A tsn have fit: "tsn \<le> size_b (?h a)" by (simp add: word_le_nat_alt unat_header_size)
  from allocate_loop_found[OF L skip pa fit] Z
  have run: "allocate s n = Some (take_block s a tsn)" by (simp add: allocate_def tsn_def)
  have "\<exists>s1 s2. take_block s a tsn = Inr (s1, a + unat header_size) \<and>
          deallocate s1 (a + unat header_size) = Some (Inr s2) \<and>
          valid_state s2 (us @ a # vs) (a # xs @ ys) \<and>
          (\<forall>x\<in>set (us @ a # vs). size_b (heap s2 x) = size_b (?h x))"
  proof (cases "unat tsn + 32 < unat (size_b (?h a))")
    case True
    define r where "r = a + unat tsn"
    from tsn have G: "unat header_size \<le> unat tsn" by (simp add: unat_header_size)
    from take_block_split[OF V' G True] obtain s1 where s1:
      "take_block s a tsn = Inr (s1, a + unat header_size)"
      "valid_state s1 (us @ a # r # vs) (xs @ r # ys)"
      "size_b (heap s1 a) = tsn" "\<not> is_free (heap s1 a)"
      "size_b (heap s1 r) = size_b (?h a) - tsn"
      "\<And>x. x \<noteq> a \<Longrightarrow> x \<noteq> r \<Longrightarrow> size_b (heap s1 x) = size_b (?h x)"
      "\<And>x. is_free (heap s1 x) = (x \<noteq> a \<and> (x = r \<or> is_free (?h x)))"
      unfolding r_def by blast
    from s1(2) have D1: "distinct (xs @ r # ys)"
      and T1: "tiles (heap s1) (m_memory_pool s1) (us @ a # r # vs) (m_memory_pool s1 + unat (m_pool_size s1))"
      by (simp_all add: valid_state_def)
    from tiles_distinct[OF T1] have rbs: "r \<notin> set (us @ a # vs)" "r \<noteq> a" by auto
    from valid_free_iff[OF s1(2), of r] have fr: "is_free (heap s1 r)" by simp
    from D1 have rm: "remove1 r (xs @ r # ys) = xs @ ys" by (simp add: remove1_append)
    from coalesce_right_merge[OF s1(2,4) fr] obtain s1' where s1':
      "coalesce_right s1 a = Inr s1'" "valid_state s1' (us @ a # vs) (xs @ ys)"
      "\<not> is_free (heap s1' a)" "vs \<noteq> [] \<longrightarrow> \<not> is_free (heap s1' (hd vs))"
      "unat (size_b (heap s1' a)) = unat (size_b (heap s1 a)) + unat (size_b (heap s1 r))"
      "\<And>x. x \<noteq> a \<Longrightarrow> size_b (heap s1' x) = size_b (heap s1 x)"
      "\<And>x. is_free (heap s1' x) = is_free (heap s1 x)"
      unfolding rm by blast
    have lf: "us \<noteq> [] \<longrightarrow> \<not> is_free (heap s1' (last us))"
    proof
      assume ne: "us \<noteq> []"
      then have "last us \<in> set us" by simp
      with rbs DB have "last us \<noteq> r" "last us \<noteq> a" by auto
      with nb(1) ne s1'(7)[of "last us"] s1(7)[of "last us"]
      show "\<not> is_free (heap s1' (last us))" by simp
    qed
    from left_none[OF s1'(2,3) lf s1'(4)] obtain s2 where s2:
      "deallocate_loop s1' a (m_free_list_head s1') = Some (Inr s2)"
      "valid_state s2 (us @ a # vs) (a # xs @ ys)"
      "\<And>x. size_b (heap s2 x) = size_b (heap s1' x)"
      by blast
    have d: "deallocate s1 (a + unat header_size) = Some (Inr s2)"
      using s1'(1) s2(1) by (simp add: deallocate_def unat_header_size)
    from fit have "unat (size_b (?h a) - tsn) = unat (size_b (?h a)) - unat tsn"
      by (rule unat_minus_le)
    with s1'(5) s1(3,5) True have "unat (size_b (heap s1' a)) = unat (size_b (?h a))" by simp
    then have sa: "size_b (heap s2 a) = size_b (?h a)"
      using s2(3)[of a] by (simp add: word_unat_eq_iff)
    have "size_b (heap s2 x) = size_b (?h x)" if "x \<in> set (us @ a # vs)" for x
    proof (cases "x = a")
      case True with sa show ?thesis by simp
    next
      case False
      moreover from that rbs have "x \<noteq> r" by auto
      ultimately show ?thesis using s2(3)[of x] s1'(6)[of x] s1(6)[of x] by simp
    qed
    with s1(1) d s2(2) show ?thesis by blast
  next
    case False
    from A tsn have G: "unat tsn \<le> unat (size_b (?h a))" by (simp add: unat_header_size)
    from take_block_whole[OF V' G False] obtain s1 where s1:
      "take_block s a tsn = Inr (s1, a + unat header_size)"
      "valid_state s1 (us @ a # vs) (xs @ ys)"
      "\<And>x. size_b (heap s1 x) = size_b (?h x)" "\<not> is_free (heap s1 a)"
      "\<And>x. is_free (heap s1 x) = (x \<noteq> a \<and> is_free (?h x))"
      by blast
    from nb s1(5) have lf: "us \<noteq> [] \<longrightarrow> \<not> is_free (heap s1 (last us))"
      and rt: "vs \<noteq> [] \<longrightarrow> \<not> is_free (heap s1 (hd vs))" by simp_all
    from rt have "vs = [] \<or> \<not> is_free (heap s1 (hd vs))" by blast
    from coalesce_right_none[OF s1(2) this] have cr: "coalesce_right s1 a = Inr s1" .
    from left_none[OF s1(2,4) lf rt] obtain s2 where s2:
      "deallocate_loop s1 a (m_free_list_head s1) = Some (Inr s2)"
      "valid_state s2 (us @ a # vs) (a # xs @ ys)"
      "\<And>x. size_b (heap s2 x) = size_b (heap s1 x)"
      by blast
    have d: "deallocate s1 (a + unat header_size) = Some (Inr s2)"
      using cr s2(1) by (simp add: deallocate_def unat_header_size)
    from s1(1,3) d s2(2,3) show ?thesis by auto
  qed
  with run bs show ?thesis by auto
qed

subsection \<open>Runs of a client\<close>

text \<open>Every state of a run is valid, and the pointers the client holds are the payload
  addresses of its allocated blocks; so in every state of a run each further call
  returns, without an access outside the pool, and the run goes on.\<close>

lemma reachable_valid:
  "reachable s L \<Longrightarrow> \<exists>bs fl. valid_state s bs fl \<and> L = live s bs"
proof (induction rule: reachable.induct)
  case (constructed base pool_size mem)
  from construct_valid[OF constructed]
  have V: "valid_state (construct base mem pool_size) [base] [base]" .
  from valid_free_iff[OF V, of base]
  have "live (construct base mem pool_size) [base] = {}" by (simp add: live_def)
  with V show ?case by (intro exI[of _ "[base]"]) simp
next
  case (allocated s L n s' p)
  then obtain bs fl where V: "valid_state s bs fl" and L: "L = live s bs" by blast
  from allocate_preserves_valid[OF V allocated.hyps(2)] allocated.hyps(3) L
  show ?case by auto
next
  case (deallocated s L p s')
  then obtain bs fl where V: "valid_state s bs fl" and L: "L = live s bs" by blast
  from deallocated.hyps(2) L obtain b where b: "b \<in> set bs" "\<not> is_free (heap s b)"
    and p: "p = b + unat header_size"
    by (auto simp: live_def)
  from deallocate_ok[OF V b] deallocated.hyps(3) p L show ?case by auto
qed

lemma reachable_allocate:
  assumes R: "reachable s L" and N: "unat n + unat header_size < 2 ^ 64"
  shows "\<exists>s' p. allocate s n = Some (Inr (s', p)) \<and>
           reachable s' (if p = 0 then L else insert p L)"
proof -
  from reachable_valid[OF R] obtain bs fl where V: "valid_state s bs fl" by blast
  from allocate_preserves_valid[OF V N] obtain s' p where
    "allocate s n = Some (Inr (s', p))" by blast
  with reachable.allocated[OF R N] show ?thesis by blast
qed

lemma reachable_deallocate:
  assumes R: "reachable s L" and P: "p \<in> L"
  shows "\<exists>s'. deallocate s p = Some (Inr s') \<and> reachable s' (L - {p})"
proof -
  from reachable_valid[OF R] obtain bs fl where V: "valid_state s bs fl"
    and L: "L = live s bs" by blast
  from P L obtain b where b: "b \<in> set bs" "\<not> is_free (heap s b)"
    and p: "p = b + unat header_size"
    by (auto simp: live_def)
  from deallocate_ok[OF V b] p obtain s' where "deallocate s p = Some (Inr s')" by blast
  with reachable.deallocated[OF R P] show ?thesis by blast
qed

section \<open>The claims\<close>

text \<open>The lemmas \<open>construct_valid\<close>, \<open>allocate_preserves_valid\<close> and \<open>deallocate_ok\<close>
  carry \<open>valid_state\<close> from the constructor through every \<open>allocate\<close> whose
  \<open>size + header_size\<close> does not wrap around and every \<open>deallocate\<close> of a pointer
  the client holds (\<open>reachable_valid\<close>), and each such call returns
  (\<open>reachable_allocate\<close>, \<open>reachable_deallocate\<close>). So the states the theorems below
  speak about are the ones such a run reaches. A request with
  \<open>size + header_size \<ge> 2^64\<close> leaves them: see C4, C6 and C7.\<close>

text \<open>C1, with the strict comparison of line 118: when \<open>allocate\<close> selects the free
  block \<open>a\<close>, the first block of
  the free list with at least \<open>requested_size + header_size\<close> bytes, the block is
  split exactly when the leftover, its size minus \<open>requested_size + header_size\<close>, is
  strictly larger than one header. Then \<open>a\<close> keeps exactly
  \<open>requested_size + header_size\<close> bytes and the rest becomes a free block right
  behind it that takes the place of \<open>a\<close> in the free list, with the same \<open>next\<close> and
  \<open>prev\<close>. With a leftover of at most one header the block is handed out whole, its
  size unchanged, and leaves the free list.\<close>

theorem split_policy:
  assumes V: "valid_state s bs (xs @ a # ys)"
      and N: "\<forall>x\<in>set xs. unat (size_b (heap s x)) < unat n + unat header_size"
      and A: "unat n + unat header_size \<le> unat (size_b (heap s a))"
      and Z: "n \<noteq> 0"
  shows "\<exists>s'. allocate s n = Some (Inr (s', a + unat header_size)) \<and>
     \<not> is_free (heap s' a) \<and>
     (if unat header_size < unat (size_b (heap s a)) - (unat n + unat header_size)
      then unat (size_b (heap s' a)) = unat n + unat header_size \<and>
           is_free (heap s' (a + (unat n + unat header_size))) \<and>
           unat (size_b (heap s' (a + (unat n + unat header_size)))) =
             unat (size_b (heap s a)) - (unat n + unat header_size) \<and>
           next_b (heap s' (a + (unat n + unat header_size))) = next_b (heap s a) \<and>
           prev (heap s' (a + (unat n + unat header_size))) = prev (heap s a) \<and>
           dll (heap s') 0 (m_free_list_head s') (xs @ (a + (unat n + unat header_size)) # ys) 0
      else size_b (heap s' a) = size_b (heap s a) \<and>
           dll (heap s') 0 (m_free_list_head s') (xs @ ys) 0)"
proof -
  from allocate_fit[OF V N A Z] obtain s' bs' fl' where
    r: "allocate s n = Some (Inr (s', a + unat header_size))" and V': "valid_state s' bs' fl'"
    and f: "\<not> is_free (heap s' a)"
    and c: "if unat header_size < unat (size_b (heap s a)) - (unat n + unat header_size)
      then fl' = xs @ (a + (unat n + unat header_size)) # ys \<and>
           unat (size_b (heap s' a)) = unat n + unat header_size \<and>
           unat (size_b (heap s' (a + (unat n + unat header_size)))) =
             unat (size_b (heap s a)) - (unat n + unat header_size) \<and>
           next_b (heap s' (a + (unat n + unat header_size))) = next_b (heap s a) \<and>
           prev (heap s' (a + (unat n + unat header_size))) = prev (heap s a)
      else fl' = xs @ ys \<and> bs' = bs \<and> size_b (heap s' a) = size_b (heap s a)"
    by blast
  from V' have L: "dll (heap s') 0 (m_free_list_head s') fl' 0" by (simp add: valid_state_def)
  show ?thesis
  proof (cases "unat header_size < unat (size_b (heap s a)) - (unat n + unat header_size)")
    case True
    with c have fl': "fl' = xs @ (a + (unat n + unat header_size)) # ys" by simp
    with valid_free_iff[OF V', of "a + (unat n + unat header_size)"]
    have "is_free (heap s' (a + (unat n + unat header_size)))" by simp
    with r f c L True fl' show ?thesis by (intro exI[of _ s']) simp
  next
    case False
    with r f c L show ?thesis by (intro exI[of _ s']) simp
  qed
qed

theorem split_policy_witness:
  "valid_state example_state [4096, 4228, 4460, 4542] ([4460] @ 4096 # []) \<and>
   unat (size_b (heap example_state 4460)) < unat (60 :: size_t) + unat header_size \<and>
   unat (60 :: size_t) + unat header_size \<le> unat (size_b (heap example_state 4096)) \<and>
   (\<exists>s'. allocate example_state 60 = Some (Inr (s', 4128)) \<and>
      \<not> is_free (heap s' 4096) \<and> unat (size_b (heap s' 4096)) = 92 \<and>
      is_free (heap s' 4188) \<and> unat (size_b (heap s' 4188)) = 40 \<and>
      next_b (heap s' 4188) = 0 \<and> prev (heap s' 4188) = 4460 \<and>
      dll (heap s') 0 (m_free_list_head s') [4460, 4188] 0) \<and>
   unat (size_b (heap example_state 4460)) < unat (70 :: size_t) + unat header_size \<and>
   unat (70 :: size_t) + unat header_size \<le> unat (size_b (heap example_state 4096)) \<and>
   (\<exists>s'. allocate example_state 70 = Some (Inr (s', 4128)) \<and>
      \<not> is_free (heap s' 4096) \<and> size_b (heap s' 4096) = 132 \<and>
      dll (heap s') 0 (m_free_list_head s') [4460] 0)"
proof -
  have V: "valid_state example_state [4096, 4228, 4460, 4542] ([4460] @ 4096 # [])"
    using example_valid by simp
  have N: "\<forall>x\<in>set [4460]. unat (size_b (heap example_state x)) < unat (60 :: size_t) + unat header_size"
    by (simp add: example_state_def unat_header_size)
  have A: "unat (60 :: size_t) + unat header_size \<le> unat (size_b (heap example_state 4096))"
    by (simp add: example_state_def unat_header_size)
  have N': "\<forall>x\<in>set [4460]. unat (size_b (heap example_state x)) < unat (70 :: size_t) + unat header_size"
    by (simp add: example_state_def unat_header_size)
  have A': "unat (70 :: size_t) + unat header_size \<le> unat (size_b (heap example_state 4096))"
    by (simp add: example_state_def unat_header_size)
  have 1: "\<exists>s'. allocate example_state 60 = Some (Inr (s', 4128)) \<and>
      \<not> is_free (heap s' 4096) \<and> unat (size_b (heap s' 4096)) = 92 \<and>
      is_free (heap s' 4188) \<and> unat (size_b (heap s' 4188)) = 40 \<and>
      next_b (heap s' 4188) = 0 \<and> prev (heap s' 4188) = 4460 \<and>
      dll (heap s') 0 (m_free_list_head s') [4460, 4188] 0"
    using split_policy[OF V N A] by (simp add: example_state_def unat_header_size)
  have 2: "\<exists>s'. allocate example_state 70 = Some (Inr (s', 4128)) \<and>
      \<not> is_free (heap s' 4096) \<and> size_b (heap s' 4096) = 132 \<and>
      dll (heap s') 0 (m_free_list_head s') [4460] 0"
    using split_policy[OF V N' A'] by (simp add: example_state_def unat_header_size)
  from V N A N' A' 1 2 show ?thesis by simp
qed

text \<open>C1 as stated, with a split whenever the leftover is at least one header, fails
  on a fresh pool of 1024 bytes: \<open>allocate(960)\<close> needs 992 bytes, the leftover is
  exactly one header (32 bytes), and the block is handed out whole with its 1024
  bytes; the free list is empty afterwards.\<close>

theorem leftover_of_one_header_is_not_split:
  "\<exists>s'. allocate (construct 4096 zero_mem 1024) 960 = Some (Inr (s', 4128)) \<and>
     unat (size_b (heap (construct 4096 zero_mem 1024) 4096)) - (unat (960 :: size_t) + unat header_size)
       = unat header_size \<and>
     size_b (heap s' 4096) = 1024 \<and> m_free_list_head s' = 0"
  by (simp add: run_defs zero_mem_def)

text \<open>C2: for every \<open>allocate(n)\<close> with \<open>n > 0\<close> the search is first-fit. The free list
  is walked in its own order \<open>xs @ a # ys\<close>, whatever the addresses are; the blocks
  \<open>xs\<close> before \<open>a\<close> are too small, \<open>a\<close> has at least \<open>n + header_size\<close> bytes, and
  \<open>a\<close> is the block taken: it is marked allocated and the pointer returned is the
  first byte after its header. The state stays valid.\<close>

theorem first_fit:
  assumes V: "valid_state s bs (xs @ a # ys)"
      and N: "\<forall>x\<in>set xs. unat (size_b (heap s x)) < unat n + unat header_size"
      and A: "unat n + unat header_size \<le> unat (size_b (heap s a))"
      and Z: "n \<noteq> 0"
  shows "\<exists>s' bs' fl'. allocate s n = Some (Inr (s', a + unat header_size)) \<and>
           \<not> is_free (heap s' a) \<and> valid_state s' bs' fl'"
  using allocate_fit[OF V N A Z] by blast

theorem first_fit_witness:
  "valid_state example_state [4096, 4228, 4460, 4542] ([] @ 4460 # [4096]) \<and>
   (4096 :: addr) < 4460 \<and>
   unat (40 :: size_t) + unat header_size \<le> unat (size_b (heap example_state 4460)) \<and>
   unat (40 :: size_t) + unat header_size \<le> unat (size_b (heap example_state 4096)) \<and>
   (\<exists>s' bs' fl'. allocate example_state 40 = Some (Inr (s', 4460 + unat header_size)) \<and>
      \<not> is_free (heap s' 4460) \<and> valid_state s' bs' fl') \<and>
   valid_state example_state [4096, 4228, 4460, 4542] ([4460] @ 4096 # []) \<and>
   unat (size_b (heap example_state 4460)) < unat (60 :: size_t) + unat header_size \<and>
   unat (60 :: size_t) + unat header_size \<le> unat (size_b (heap example_state 4096)) \<and>
   (\<exists>s' bs' fl'. allocate example_state 60 = Some (Inr (s', 4096 + unat header_size)) \<and>
      \<not> is_free (heap s' 4096) \<and> valid_state s' bs' fl')"
proof -
  have V: "valid_state example_state [4096, 4228, 4460, 4542] ([] @ 4460 # [4096])"
    using example_valid by simp
  have N: "\<forall>x\<in>set []. unat (size_b (heap example_state x)) < unat (40 :: size_t) + unat header_size"
    by simp
  have A: "unat (40 :: size_t) + unat header_size \<le> unat (size_b (heap example_state 4460))"
    by (simp add: example_state_def unat_header_size)
  have B: "unat (40 :: size_t) + unat header_size \<le> unat (size_b (heap example_state 4096))"
    by (simp add: example_state_def unat_header_size)
  have V': "valid_state example_state [4096, 4228, 4460, 4542] ([4460] @ 4096 # [])"
    using example_valid by simp
  have N': "\<forall>x\<in>set [4460]. unat (size_b (heap example_state x)) < unat (60 :: size_t) + unat header_size"
    by (simp add: example_state_def unat_header_size)
  have A': "unat (60 :: size_t) + unat header_size \<le> unat (size_b (heap example_state 4096))"
    by (simp add: example_state_def unat_header_size)
  from first_fit[OF V N A] first_fit[OF V' N' A'] V V' A B N' A' show ?thesis by simp
qed

text \<open>C3: \<open>deallocate\<close> of the pointer of an allocated block \<open>b\<close>, in a valid state,
  returns, and in the state it returns no two physically adjacent blocks are both
  free; the blocks still tile the pool and the free list still holds exactly the
  free blocks.\<close>

theorem deallocate_keeps_free_blocks_apart:
  assumes V: "valid_state s bs fl" and B: "b \<in> set bs" and A: "\<not> is_free (heap s b)"
  shows "\<exists>s' bs' fl'. deallocate s (b + unat header_size) = Some (Inr s') \<and>
           valid_state s' bs' fl' \<and> no_adjacent_free (heap s') bs'"
proof -
  from deallocate_ok[OF V B A] obtain s' bs' fl' where
    "deallocate s (b + unat header_size) = Some (Inr s')" "valid_state s' bs' fl'"
    by blast
  moreover from this(2) have "no_adjacent_free (heap s') bs'" by (simp add: valid_state_def)
  ultimately show ?thesis by blast
qed

theorem deallocate_keeps_free_blocks_apart_witness:
  "valid_state example_state [4096, 4228, 4460, 4542] [4460, 4096] \<and>
   4228 \<in> set [4096, 4228, 4460, 4542 :: addr] \<and> \<not> is_free (heap example_state 4228) \<and>
   (\<exists>s' bs' fl'. deallocate example_state (4228 + unat header_size) = Some (Inr s') \<and>
      valid_state s' bs' fl' \<and> no_adjacent_free (heap s') bs' \<and>
      print_free_list s' = Some (Inr [(4096, 446)]))"
proof -
  have B: "4228 \<in> set [4096, 4228, 4460, 4542 :: addr]" by simp
  have A: "\<not> is_free (heap example_state 4228)" by (simp add: example_state_def)
  have E: "bind_res (deallocate example_state (4228 + unat header_size)) print_free_list =
             Some (Inr [(4096, 446)])"
    by (simp add: run_defs example_state_def zero_mem_def)
  from deallocate_keeps_free_blocks_apart[OF example_valid B A] obtain s' bs' fl' where
    s': "deallocate example_state (4228 + unat header_size) = Some (Inr s')"
    "valid_state s' bs' fl'" "no_adjacent_free (heap s') bs'"
    by blast
  from E s'(1) have "print_free_list s' = Some (Inr [(4096, 446)])" by simp
  with s' example_valid B A show ?thesis by blast
qed

text \<open>C4 (at the failing input): on a fresh pool of 1024 bytes at address 4096,
  \<open>allocate(2^64 - 32)\<close> computes a total of 0 bytes, takes the only block and leaves
  its header with size 0, marked allocated and still at the head of the free list.
  No list of blocks tiles the pool any more.\<close>

theorem wrapping_request_breaks_the_tiling:
  "\<exists>s'. allocate (construct 4096 zero_mem 1024) 18446744073709551584 = Some (Inr (s', 4128)) \<and>
     size_b (heap s' 4096) = 0 \<and> \<not> is_free (heap s' 4096) \<and> m_free_list_head s' = 4096 \<and>
     \<not> (\<exists>bs. tiles (heap s') (m_memory_pool s') bs (m_memory_pool s' + unat (m_pool_size s')))"
proof -
  have "\<exists>s'. allocate (construct 4096 zero_mem 1024) 18446744073709551584 = Some (Inr (s', 4128)) \<and>
     size_b (heap s' 4096) = 0 \<and> \<not> is_free (heap s' 4096) \<and> m_free_list_head s' = 4096 \<and>
     m_memory_pool s' = 4096 \<and> m_pool_size s' = 1024"
    by (simp add: run_defs zero_mem_def)
  then obtain s' where s':
    "allocate (construct 4096 zero_mem 1024) 18446744073709551584 = Some (Inr (s', 4128))"
    "size_b (heap s' 4096) = 0" "\<not> is_free (heap s' 4096)" "m_free_list_head s' = 4096"
    "m_memory_pool s' = 4096" "m_pool_size s' = 1024"
    by blast
  from s'(2,5,6) have "\<not> tiles (heap s') (m_memory_pool s') bs (m_memory_pool s' + unat (m_pool_size s'))" for bs
    by (intro no_tiling_from_empty_block) simp_all
  with s' show ?thesis by blast
qed

text \<open>C5: the scenario of \<^verbatim>\<open>main\<close> on a pool of 1024 bytes. The free list is one
  block of 1024 bytes at the start of the pool; after \<open>allocate\<close> of 100, 200 and 50
  bytes it is the remainder of 578 bytes; freeing \<open>p2\<close> gives exactly two free
  blocks; freeing \<open>p1\<close> merges it with the extent of \<open>p2\<close> into one block of 364
  bytes; freeing \<open>p3\<close> leaves a single block of 1024 bytes at the start of the
  pool, the initial snapshot.\<close>

theorem main_scenario:
  assumes "base \<noteq> 0"
  shows "main_snapshots base mem = Some (Inr
     [[(base, 1024)],
      [(base + 446, 578)],
      [(base + 132, 232), (base + 446, 578)],
      [(base, 364), (base + 446, 578)],
      [(base, 1024)]])"
  using assms by (simp add: main_snapshots_def run_defs)

theorem main_scenario_witness:
  "(4096 :: addr) \<noteq> 0 \<and> main_snapshots 4096 zero_mem = Some (Inr
     [[(4096, 1024)],
      [(4542, 578)],
      [(4228, 232), (4542, 578)],
      [(4096, 364), (4542, 578)],
      [(4096, 1024)]])"
  using main_scenario[of 4096 zero_mem] by simp

text \<open>C6 (at the failing input): on a fresh pool of 1024 bytes at address 4096 the
  free list holds 1024 bytes. \<open>allocate(2^64 - 32)\<close> returns the pointer 4128, and
  \<open>deallocate\<close> of that pointer leaves a free list whose only block has size 0.\<close>

theorem wrapping_request_round_trip:
  "print_free_list (construct 4096 zero_mem 1024) = Some (Inr [(4096, 1024)]) \<and>
   bind_res (allocate (construct 4096 zero_mem 1024) 18446744073709551584) (\<lambda>(s1, p).
   bind_res (deallocate s1 p) (\<lambda>s2.
   bind_res (print_free_list s2) (\<lambda>out. Some (Inr (p, out))))) = Some (Inr (4128, [(4096, 0)]))"
  by (simp add: run_defs zero_mem_def)

text \<open>C7 (at the failing input): on a fresh pool of 1024 bytes at address 4096 the
  only free block has 1024 bytes, fewer than \<open>(2^64 - 32) + header_size\<close>, yet
  \<open>allocate(2^64 - 32)\<close> returns the pointer 4128 and changes the header of the
  block.\<close>

theorem wrapping_request_is_not_refused:
  "print_free_list (construct 4096 zero_mem 1024) = Some (Inr [(4096, 1024)]) \<and>
   unat (1024 :: size_t) < unat (18446744073709551584 :: size_t) + unat header_size \<and>
   (\<exists>s'. allocate (construct 4096 zero_mem 1024) 18446744073709551584 = Some (Inr (s', 4128)) \<and>
      heap s' 4096 \<noteq> heap (construct 4096 zero_mem 1024) 4096)"
  by (simp add: run_defs zero_mem_def)

text \<open>C8: an allocator constructed with a pool smaller than one header has no pool
  and an empty free list, and every \<open>allocate(n)\<close> on it returns the null pointer and
  leaves the state as it is.\<close>

theorem undersized_pool_is_inert:
  assumes "pool_size < header_size"
  shows "m_memory_pool (construct base mem pool_size) = 0 \<and>
         m_free_list_head (construct base mem pool_size) = 0 \<and>
         print_free_list (construct base mem pool_size) = Some (Inr []) \<and>
         allocate (construct base mem pool_size) n =
           Some (Inr (construct base mem pool_size, 0))"
  using assms
  by (simp add: construct_def allocate_def print_free_list_def
        allocate_loop.simps print_loop.simps)

theorem undersized_pool_is_inert_witness:
  "(16 :: size_t) < header_size \<and>
   m_memory_pool (construct 4096 zero_mem 16) = 0 \<and>
   m_free_list_head (construct 4096 zero_mem 16) = 0 \<and>
   print_free_list (construct 4096 zero_mem 16) = Some (Inr []) \<and>
   allocate (construct 4096 zero_mem 16) 8 = Some (Inr (construct 4096 zero_mem 16, 0))"
proof -
  have h: "(16 :: size_t) < header_size" by (simp add: header_size_def)
  from undersized_pool_is_inert[OF h, of 4096 zero_mem 8] h show ?thesis by simp
qed

text \<open>C9: in every allocator state, \<open>allocate(0)\<close> returns a null result and leaves
  the state as it is, and \<open>deallocate(nullptr)\<close> returns normally and leaves the state
  as it is.\<close>

theorem zero_size_and_null_are_no_ops:
  "allocate s 0 = Some (Inr (s, 0)) \<and> deallocate s 0 = Some (Inr s)"
  by (simp add: allocate_def deallocate_def)

text \<open>C10: in \<open>deallocate\<close> the header of the physically next block is read only when
  its address is below the end of the pool: at or after the end the test of line 171
  is false without a read. When the blocks tile the pool, the address behind a block
  \<open>b\<close> is the end of the pool or the start of a block whose header lies inside the
  pool, so the test never reads outside the pool; for the last block it reads
  nothing.\<close>

theorem right_neighbour_test_stays_in_pool:
  assumes A: "m_memory_pool s \<noteq> 0"
      and T: "tiles (heap s) (m_memory_pool s) bs (m_memory_pool s + unat (m_pool_size s))"
      and B: "b \<in> set bs"
  shows "(\<exists>r. right_neighbour_free s (b + unat (size_b (heap s b))) = Inr r) \<and>
         (b + unat (size_b (heap s b)) < m_memory_pool s + unat (m_pool_size s) \<longrightarrow>
            in_pool s (b + unat (size_b (heap s b)))) \<and>
         (b = last bs \<longrightarrow> right_neighbour_free s (b + unat (size_b (heap s b))) = Inr False) \<and>
         (\<forall>a. m_memory_pool s + unat (m_pool_size s) \<le> a \<longrightarrow> right_neighbour_free s a = Inr False)"
proof -
  have "\<forall>a. m_memory_pool s + unat (m_pool_size s) \<le> a \<longrightarrow> right_neighbour_free s a = Inr False"
    by (simp add: right_neighbour_free_def)
  with right_neighbour_in_bounds[OF A T B] show ?thesis by blast
qed

theorem right_neighbour_test_stays_in_pool_witness:
  "m_memory_pool example_state \<noteq> 0 \<and>
   tiles (heap example_state) (m_memory_pool example_state) [4096, 4228, 4460, 4542]
     (m_memory_pool example_state + unat (m_pool_size example_state)) \<and>
   4542 + unat (size_b (heap example_state 4542)) = 5120 \<and>
   right_neighbour_free example_state 5120 = Inr False \<and>
   4228 + unat (size_b (heap example_state 4228)) = 4460 \<and>
   in_pool example_state 4460 \<and>
   right_neighbour_free example_state 4460 = Inr True"
proof -
  have A: "m_memory_pool example_state \<noteq> 0" by (simp add: example_state_def)
  have T: "tiles (heap example_state) (m_memory_pool example_state) [4096, 4228, 4460, 4542]
     (m_memory_pool example_state + unat (m_pool_size example_state))"
    using example_valid by (simp add: valid_state_def)
  have B: "4542 \<in> set [4096, 4228, 4460, 4542 :: addr]" by simp
  have E: "4542 + unat (size_b (heap example_state 4542)) = 5120"
    by (simp add: example_state_def)
  have B': "4228 \<in> set [4096, 4228, 4460, 4542 :: addr]" by simp
  have E': "4228 + unat (size_b (heap example_state 4228)) = 4460"
    by (simp add: example_state_def)
  from right_neighbour_test_stays_in_pool[OF A T B] E
  have 1: "right_neighbour_free example_state 5120 = Inr False" by simp
  from right_neighbour_test_stays_in_pool[OF A T B'] E'
  have 2: "in_pool example_state 4460" by (simp add: example_state_def)
  then have 3: "right_neighbour_free example_state 4460 = Inr True"
    by (simp add: right_neighbour_free_def load_in) (simp add: example_state_def)
  from A T E E' 1 2 3 show ?thesis by blast
qed

end
